theory Spec2Isabelle
  imports Complex_Main "HOL-Library.Multiset"
begin

section \<open>Touch events\<close>

text \<open>
  A row of the \<open>touches\<close> array of \<open>process_touches.py\<close> and \<open>filters.py\<close>: the four
  columns \<open>touch, ch, time, duration\<close>. Times and durations are floats in the source; they
  are modelled as exact rationals, so the rounding of float arithmetic is outside the model.
\<close>

record touch =
  number :: int
  channel :: int
  time :: rat
  duration :: rat

text \<open>\<open>np.delete(arr, i, 0)\<close> for an index in range.\<close>

definition delete_row :: "nat \<Rightarrow> 'a list \<Rightarrow> 'a list" where
  "delete_row i xs = take i xs @ drop (Suc i) xs"

section \<open>filters.py: double\_electrode\<close>

text \<open>
  \<open>within_time = subarray[np.where(subarray[:,2] <= touches[row][2] + 0.150)]\<close>
\<close>

definition within_time :: "touch \<Rightarrow> touch list \<Rightarrow> touch list" where
  "within_time e subarray = filter (\<lambda>t. time t \<le> time e + 150 / 1000) subarray"

text \<open>
  The test of line 129, \<open>abs(ch_1 - ch_2) == 2 and (ch_1 and ch_2 not in [0,47])\<close>.
  Python reads the bracket as \<open>ch_1 and (ch_2 not in [0,47])\<close>: the first channel is
  only tested for being non-zero.
\<close>

definition adjacent :: "int \<Rightarrow> int \<Rightarrow> bool" where
  "adjacent ch_1 ch_2 \<longleftrightarrow> \<bar>ch_1 - ch_2\<bar> = 2 \<and> (ch_1 \<noteq> 0 \<and> ch_2 \<notin> {0, 47})"

text \<open>
  The inner loop \<open>for row2 in range(len(within_time))\<close>: the index of the first row of
  \<open>within_time\<close> that passes the test, if any.
\<close>

fun inner_loop :: "int \<Rightarrow> touch list \<Rightarrow> nat \<Rightarrow> nat option" where
  "inner_loop ch_1 [] row2 = None"
| "inner_loop ch_1 (t # ts) row2 =
     (if adjacent ch_1 (channel t) then Some row2 else inner_loop ch_1 ts (Suc row2))"

text \<open>
  The outer loop \<open>for row in range(len(touches))\<close>. The third argument is
  \<open>touches[row:]\<close>. The result is the row appended to \<open>deleted\<close> together with the
  updated \<open>touches\<close>, or \<open>None\<close> when the scan ends with \<open>touch_deleted == False\<close>.
\<close>

fun outer_loop :: "touch list \<Rightarrow> nat \<Rightarrow> touch list \<Rightarrow> (touch \<times> touch list) option" where
  "outer_loop touches row [] = None"
| "outer_loop touches row (e # subarray) =
     (let wt = within_time e subarray in
      case inner_loop (channel e) wt 0 of
        Some row2 \<Rightarrow>
          if channel e < channel (wt ! row2)
          then Some (e, delete_row row touches)
          else Some (wt ! row2, delete_row (row + row2 + 1) touches)
      | None \<Rightarrow> outer_loop touches (Suc row) subarray)"

lemma inner_loop_bound:
  "inner_loop c ts k = Some r \<Longrightarrow> k \<le> r \<and> r < k + length ts"
  by (induction ts arbitrary: k) (fastforce split: if_splits)+

lemma length_within_time: "length (within_time e ts) \<le> length ts"
  by (simp add: within_time_def)

lemma length_delete_row: "i < length xs \<Longrightarrow> length (delete_row i xs) = length xs - 1"
  by (simp add: delete_row_def)

lemma outer_loop_length:
  "outer_loop ts row sub = Some (d, ts') \<Longrightarrow> row + length sub = length ts
     \<Longrightarrow> Suc (length ts') = length ts"
proof (induction sub arbitrary: row)
  case Nil
  then show ?case by simp
next
  case (Cons e sub)
  show ?case
  proof (cases "inner_loop (channel e) (within_time e sub) 0")
    case None
    with Cons.prems have "outer_loop ts (Suc row) sub = Some (d, ts')" by simp
    with Cons.IH [of "Suc row"] Cons.prems(2) show ?thesis by simp
  next
    case (Some row2)
    from inner_loop_bound [OF Some] length_within_time [of e sub]
    have "row2 < length sub" by simp
    with Cons.prems Some show ?thesis
      by (auto simp: Let_def length_delete_row split: if_splits)
  qed
qed

text \<open>
  The loop \<open>while True\<close>: scan, and restart with the updated array after each deletion,
  until a scan deletes nothing.
\<close>

function while_loop :: "touch list \<Rightarrow> touch list \<Rightarrow> touch list \<times> touch list" where
  "while_loop touches deleted =
     (case outer_loop touches 0 touches of
        None \<Rightarrow> (touches, deleted)
      | Some (d, touches') \<Rightarrow> while_loop touches' (deleted @ [d]))"
  by pat_completeness auto
termination
proof (relation "measure (\<lambda>(touches, deleted). length touches)")
  show "wf (measure (\<lambda>(touches, deleted). length touches))" by simp
next
  fix touches deleted :: "touch list" and x2 d touches'
  assume "outer_loop touches 0 touches = Some x2" "(d, touches') = x2"
  then have "outer_loop touches 0 touches = Some (d, touches')" by simp
  from outer_loop_length [OF this] have "Suc (length touches') = length touches" by simp
  then show "((touches', deleted @ [d]), (touches, deleted))
      \<in> measure (\<lambda>(touches, deleted). length touches)" by simp
qed

definition double_electrode :: "touch list \<Rightarrow> touch list \<times> touch list" where
  "double_electrode touches = while_loop touches []"

text \<open>
  The same loop with a bound on the number of scans: \<open>None\<close> when the bound is used up
  before a scan ends without a deletion.
\<close>

fun while_loop_fuel :: "nat \<Rightarrow> touch list \<Rightarrow> touch list \<Rightarrow> (touch list \<times> touch list) option" where
  "while_loop_fuel 0 touches deleted = None"
| "while_loop_fuel (Suc n) touches deleted =
     (case outer_loop touches 0 touches of
        None \<Rightarrow> Some (touches, deleted)
      | Some (d, touches') \<Rightarrow> while_loop_fuel n touches' (deleted @ [d]))"

section \<open>filters.py: repeated\_touches\<close>

text \<open>
  \<open>np.unique(touches[:,1], return_counts=True)\<close> gives the distinct channels in
  ascending order with their counts; the channels with a count above 1 are kept.
\<close>

definition repeated_touched_channels :: "touch list \<Rightarrow> int list" where
  "repeated_touched_channels touches =
     (let chs = map channel touches;
          unique = sort (remdups chs)
      in filter (\<lambda>c. count_list chs c > 1) unique)"

text \<open>
  One pass of the loop \<open>for row in range(len(subarray))\<close> (lines 51 to 86). The rows of
  \<open>subarray\<close> are ordered latest first (line 30), so \<open>subarray[row]\<close> is the later and
  \<open>subarray[row+1]\<close> the earlier event of a consecutive pair. The pass ends in one of
  four ways:
  \<^item> \<open>Restart d subarray'\<close>: row \<open>d\<close> was appended to \<open>deleted\<close> and removed, then \<open>break\<close>;
  \<^item> \<open>Stop\<close>: the last pair was reached without a deletion (\<open>stop = True\<close>);
  \<^item> \<open>IndexError\<close>: \<open>subarray[row+1]\<close> is read past the last row;
  \<^item> \<open>Exhausted\<close>: the range is empty, the body never runs.
  The second argument holds the rows before \<open>row\<close>, the third the rows from \<open>row\<close> on.
\<close>

datatype scan_result = Restart touch "touch list" | Stop | IndexError | Exhausted

fun for_loop :: "rat \<Rightarrow> touch list \<Rightarrow> touch list \<Rightarrow> scan_result" where
  "for_loop thr pre (x # y # rest) =
     (if time x - time y \<le> thr then
        (if duration x < duration y \<or> channel x = 47 then Restart x (pre @ y # rest)
         else if duration x \<ge> duration y \<or> channel x = 0 then Restart y (pre @ x # rest)
         else for_loop thr (pre @ [x]) (y # rest))
      else if rest = [] then Stop
      else for_loop thr (pre @ [x]) (y # rest))"
| "for_loop thr pre [x] = IndexError"
| "for_loop thr pre [] = Exhausted"

lemma for_loop_length:
  "for_loop thr pre sub = Restart d sub' \<Longrightarrow> Suc (length sub') = length pre + length sub"
  by (induction thr pre sub rule: for_loop.induct) (auto split: if_splits)

text \<open>
  The loop \<open>while len(subarray) > 1 and stop == False\<close> for one channel. \<open>None\<close> stands
  for a run that yields no result: the source raises \<open>IndexError\<close>, or repeats the same
  pass for ever. Lemma \<open>rt_while_result\<close> below shows that neither happens.
\<close>

function rt_while :: "rat \<Rightarrow> touch list \<Rightarrow> touch list \<Rightarrow> touch list
    \<Rightarrow> (touch list \<times> touch list) option" where
  "rt_while thr subarray no_rt deleted =
     (if length subarray > 1 then
        (case for_loop thr [] subarray of
           Restart d subarray' \<Rightarrow>
             rt_while thr subarray'
               (if length subarray' < 2 then no_rt @ subarray' else no_rt) (deleted @ [d])
         | Stop \<Rightarrow> Some (no_rt @ subarray, deleted)
         | IndexError \<Rightarrow> None
         | Exhausted \<Rightarrow> None)
      else Some (no_rt, deleted))"
  by pat_completeness auto
termination
proof (relation "measure (\<lambda>(thr, subarray, no_rt, deleted). length subarray)")
  show "wf (measure (\<lambda>(thr, subarray, no_rt, deleted). length subarray))" by simp
next
  fix thr :: rat and subarray no_rt deleted :: "touch list" and d subarray'
  assume "for_loop thr [] subarray = Restart d subarray'"
  from for_loop_length [OF this]
  show "((thr, subarray', if length subarray' < 2 then no_rt @ subarray' else no_rt, deleted @ [d]),
         (thr, subarray, no_rt, deleted))
      \<in> measure (\<lambda>(thr, subarray, no_rt, deleted). length subarray)" by simp
qed

text \<open>The loop \<open>for ch in repeated_touched_channels\<close>.\<close>

fun channel_loop :: "rat \<Rightarrow> touch list \<Rightarrow> int list \<Rightarrow> touch list \<Rightarrow> touch list
    \<Rightarrow> (touch list \<times> touch list) option" where
  "channel_loop thr rt [] no_rt deleted = Some (no_rt, deleted)"
| "channel_loop thr rt (ch # chs) no_rt deleted =
     (case rt_while thr (filter (\<lambda>t. channel t = ch) rt) no_rt deleted of
        None \<Rightarrow> None
      | Some (no_rt', deleted') \<Rightarrow> channel_loop thr rt chs no_rt' deleted')"

text \<open>
  \<open>np.argsort\<close> is modelled by the stable insertion sort \<open>sort_key\<close>: numpy's default
  quicksort sorts arrays of at most 16 rows by insertion, which keeps rows with equal keys
  in their order.
\<close>

definition repeated_touches :: "touch list \<Rightarrow> rat \<Rightarrow> (touch list \<times> touch list) option" where
  "repeated_touches touches repeated_touch_threshold =
     (let chs = repeated_touched_channels touches;
          mask = (\<lambda>t. channel t \<in> set chs);
          rt = rev (sort_key time (filter mask touches));
          no_rt = filter (\<lambda>t. \<not> mask t) touches
      in case channel_loop repeated_touch_threshold rt chs no_rt [] of
           None \<Rightarrow> None
         | Some (no_rt', deleted) \<Rightarrow> Some (sort_key time no_rt', sort_key time deleted))"

section \<open>process\_touches.py: command line and log\<close>

text \<open>
  The two options of the command line: \<open>args.threshold\<close> is \<open>None\<close> when \<open>-t\<close> is absent,
  \<open>args.no_filter\<close> is the flag \<open>-nf\<close>.
\<close>

record args =
  threshold_arg :: "rat option"
  no_filter :: bool

text \<open>
  The test \<open>if args.threshold:\<close> of lines 66 and 171 is Python truthiness: it fails for
  \<open>None\<close> and also for a threshold of \<open>0\<close>.
\<close>

definition threshold_given :: "args \<Rightarrow> bool" where
  "threshold_given a \<longleftrightarrow> (case threshold_arg a of None \<Rightarrow> False | Some t \<Rightarrow> t \<noteq> 0)"

text \<open>The variable \<open>threshold\<close> of lines 66 to 74.\<close>

definition threshold :: "args \<Rightarrow> rat" where
  "threshold a =
     (case threshold_arg a of None \<Rightarrow> 1 / 10 | Some t \<Rightarrow> if t \<noteq> 0 then t else 1 / 10)"

definition start_ch :: nat where
  "start_ch = 47"

definition finish_ch :: nat where
  "finish_ch = 0"

text \<open>
  A line appended to \<open>log.txt\<close> by \<open>log\<close> (lines 86 to 100), without the date: the
  file name and the arguments of the message. \<open>FirstTouch\<close> is the free-text message of
  line 155.
\<close>

datatype log_entry =
    Warning string int rat rat
  | Delete string int rat rat rat
  | Repeated string int rat rat
  | Double string int rat int
  | FirstTouch string nat

text \<open>
  \<open>Decimal(str(x)).quantize(Decimal('.001'), rounding=ROUND_HALF_UP)\<close>: three decimals,
  halves rounded away from zero.
\<close>

definition quantize :: "rat \<Rightarrow> rat" where
  "quantize x =
     (if 0 \<le> x then of_int \<lfloor>x * 1000 + 1 / 2\<rfloor> / 1000
      else - (of_int \<lfloor>- x * 1000 + 1 / 2\<rfloor> / 1000))"

text \<open>
  What stops the processing of a file: the two checks that print a message and call
  \<open>sys.exit(1)\<close> (lines 108 and 140), and the exceptions that the decoder, the
  dictionary \<open>temp\<close> and the filters can raise.
\<close>

datatype error = NoTouchesDetected | FirstRowTouched | ValueError | KeyError | FilterError

section \<open>process\_touches.py: the sample decoder (lines 126 to 133)\<close>

text \<open>The binary digits of a natural number, most significant first, as \<open>format\<close> prints them.\<close>

fun bin_digits :: "nat \<Rightarrow> string" where
  "bin_digits n =
     (if n < 2 then [if n = 0 then CHR ''0'' else CHR ''1'']
      else bin_digits (n div 2) @ [if n mod 2 = 0 then CHR ''0'' else CHR ''1''])"

declare bin_digits.simps [simp del]

definition zero_pad :: "nat \<Rightarrow> string \<Rightarrow> string" where
  "zero_pad w ds = replicate (w - length ds) CHR ''0'' @ ds"

text \<open>
  \<open>format(n, '#014b')[2:]\<close>: the field has width 14 with the prefix \<open>0b\<close>, so a mask that is
  not negative is printed with at least 12 digits (more when it needs more); a negative
  one is printed as \<open>-0b\<close> and 11 digits, of which the slice leaves \<open>b\<close> and the digits.
\<close>

definition format_014b_tail :: "int \<Rightarrow> string" where
  "format_014b_tail n =
     (if 0 \<le> n then zero_pad 12 (bin_digits (nat n))
      else CHR ''b'' # zero_pad 11 (bin_digits (nat (- n))))"

text \<open>\<open>int(d)\<close> for a character of that string; \<open>int('b')\<close> raises \<open>ValueError\<close>.\<close>

definition int_of_digit :: "char \<Rightarrow> error + nat" where
  "int_of_digit d =
     (if d = CHR ''0'' then Inr 0 else if d = CHR ''1'' then Inr 1 else Inl ValueError)"

fun int_of_digits :: "string \<Rightarrow> error + nat list" where
  "int_of_digits [] = Inr []"
| "int_of_digits (d # ds) =
     (case int_of_digit d of
        Inl e \<Rightarrow> Inl e
      | Inr v \<Rightarrow> (case int_of_digits ds of Inl e \<Rightarrow> Inl e | Inr vs \<Rightarrow> Inr (v # vs)))"

text \<open>
  \<open>list(reversed([int(d) for d in str(format(data[row][MPR121+1],'#014b')[2:])]))\<close>
\<close>

definition sensor_bits :: "int \<Rightarrow> error + nat list" where
  "sensor_bits v =
     (case int_of_digits (format_014b_tail v) of Inl e \<Rightarrow> Inl e | Inr vs \<Rightarrow> Inr (rev vs))"

text \<open>The loop \<open>for MPR121 in range(n_MPR121s)\<close> that extends \<open>touch_list\<close>.\<close>

fun touch_list :: "int list \<Rightarrow> error + nat list" where
  "touch_list [] = Inr []"
| "touch_list (v # vs) =
     (case sensor_bits v of
        Inl e \<Rightarrow> Inl e
      | Inr bits \<Rightarrow> (case touch_list vs of Inl e \<Rightarrow> Inl e | Inr rest \<Rightarrow> Inr (bits @ rest)))"

text \<open>
  One row of the raw table is its timestamp and one integer per sensor. The assignment
  \<open>newdata[row][1:ncols] = touch_list\<close> raises \<open>ValueError\<close> unless the list has
  \<open>ncols - 1 = 12 * n_MPR121s\<close> entries; a row with another number of sensor columns than
  the first is rejected in the same way (by \<open>genfromtxt\<close> in the source).
\<close>

type_synonym raw_row = "rat \<times> int list"

type_synonym sample = "rat \<times> nat list"

definition decode_row :: "nat \<Rightarrow> raw_row \<Rightarrow> error + sample" where
  "decode_row n_MPR121s r =
     (if length (snd r) \<noteq> n_MPR121s then Inl ValueError
      else case touch_list (snd r) of
             Inl e \<Rightarrow> Inl e
           | Inr bits \<Rightarrow>
               if length bits = 12 * n_MPR121s then Inr (fst r, bits) else Inl ValueError)"

fun decode :: "nat \<Rightarrow> raw_row list \<Rightarrow> error + sample list" where
  "decode n_MPR121s [] = Inr []"
| "decode n_MPR121s (r # rs) =
     (case decode_row n_MPR121s r of
        Inl e \<Rightarrow> Inl e
      | Inr s \<Rightarrow> (case decode n_MPR121s rs of Inl e \<Rightarrow> Inl e | Inr ss \<Rightarrow> Inr (s # ss)))"

text \<open>
  The raw table constructed from a channel/tick matrix, following the words of the claim on
  the decoder (it is not part of the source): the mask of sensor \<open>s\<close> has bit \<open>b\<close> set
  exactly when channel \<open>12 * s + b\<close> is touched. \<open>construct_sensor\<close> takes the 12 entries
  of one sensor, least significant first; \<open>construct_row n\<close> takes the \<open>12 * n\<close> entries of
  a tick.
\<close>

fun construct_sensor :: "nat list \<Rightarrow> int" where
  "construct_sensor [] = 0"
| "construct_sensor (x # xs) = int x + 2 * construct_sensor xs"

fun construct_row :: "nat \<Rightarrow> nat list \<Rightarrow> int list" where
  "construct_row 0 bits = []"
| "construct_row (Suc n) bits = construct_sensor (take 12 bits) # construct_row n (drop 12 bits)"

section \<open>process\_touches.py: the touch extraction loop (lines 135 to 181)\<close>

text \<open>
  The state of the scan: the array \<open>touches\<close>, the dictionary \<open>temp\<close> of the open touches,
  and the lines written to the log.
\<close>

record scan_state =
  st_touches :: "touch list"
  st_temp :: "nat \<rightharpoonup> rat"
  st_log :: "log_entry list"

text \<open>
  The branch "touch released" (lines 165 to 178) for channel \<open>ch\<close> at relative time
  \<open>released\<close>. \<open>temp[ch]\<close> raises \<open>KeyError\<close> when the channel is not in the dictionary.
\<close>

definition release :: "args \<Rightarrow> string \<Rightarrow> nat \<Rightarrow> rat \<Rightarrow> scan_state \<Rightarrow> error + scan_state" where
  "release a filename ch released st =
     (case st_temp st ch of
        None \<Rightarrow> Inl KeyError
      | Some t0 \<Rightarrow>
          let dur = released - t0;
              short = (dur < threshold a \<and> finish_ch < ch \<and> ch < start_ch);
              include_touch = \<not> (short \<and> threshold_given a)
          in Inr \<lparr>st_touches = st_touches st @
                     (if include_touch
                      then [\<lparr>number = 0, channel = int ch, time = t0, duration = dur\<rparr>]
                      else []),
                   st_temp = (st_temp st)(ch := None),
                   st_log = st_log st @
                     (if short
                      then (if threshold_given a
                            then [Delete filename (int ch) (quantize t0) (quantize dur) (threshold a)]
                            else [Warning filename (int ch) (quantize t0) (quantize dur)])
                      else [])\<rparr>)"

text \<open>
  The body of \<open>for ch in range(ncols-1)\<close> for the rows \<open>prev = newdata[row-1]\<close> and
  \<open>cur = newdata[row]\<close>. Both rows have \<open>ncols - 1\<close> entries, so the reads are in range.
\<close>

definition cell :: "args \<Rightarrow> string \<Rightarrow> rat \<Rightarrow> nat \<Rightarrow> sample \<Rightarrow> sample \<Rightarrow> nat \<Rightarrow> scan_state
    \<Rightarrow> error + scan_state" where
  "cell a filename start row prev cur ch st =
     (if snd cur ! ch = 1 \<and> snd prev ! ch = 0 then
        Inr (st\<lparr>st_temp := (st_temp st)(ch \<mapsto> fst cur - start),
                st_log := st_log st @
                  (if row = 1 \<and> ch \<noteq> start_ch then [FirstTouch filename ch] else [])\<rparr>)
      else if snd cur ! ch = 0 \<and> snd prev ! ch = 1 then
        release a filename ch (fst cur - start) st
      else Inr st)"

text \<open>A \<open>for\<close> loop over a list that an exception leaves.\<close>

fun foreach :: "('a \<Rightarrow> 's \<Rightarrow> error + 's) \<Rightarrow> 'a list \<Rightarrow> 's \<Rightarrow> error + 's" where
  "foreach f [] st = Inr st"
| "foreach f (x # xs) st = (case f x st of Inl e \<Rightarrow> Inl e | Inr st' \<Rightarrow> foreach f xs st')"

text \<open>The loop \<open>for row in range(1,nrows)\<close>; \<open>n\<close> is \<open>ncols - 1\<close>.\<close>

fun row_loop :: "args \<Rightarrow> string \<Rightarrow> rat \<Rightarrow> nat \<Rightarrow> nat \<Rightarrow> sample \<Rightarrow> sample list \<Rightarrow> scan_state
    \<Rightarrow> error + scan_state" where
  "row_loop a filename start n row prev [] st = Inr st"
| "row_loop a filename start n row prev (cur # rest) st =
     (case foreach (cell a filename start row prev cur) [0..<n] st of
        Inl e \<Rightarrow> Inl e
      | Inr st' \<Rightarrow> row_loop a filename start n (Suc row) cur rest st')"

section \<open>process\_touches.py: filtering, numbering and the batch (lines 103 to 215)\<close>

text \<open>\<open>deleted.any()\<close>: some entry of the array is not zero.\<close>

definition any_nonzero :: "touch list \<Rightarrow> bool" where
  "any_nonzero rows \<longleftrightarrow>
     (\<exists>r\<in>set rows. number r \<noteq> 0 \<or> channel r \<noteq> 0 \<or> time r \<noteq> 0 \<or> duration r \<noteq> 0)"

text \<open>\<open>touches[:,0] = [d+1 for d in range(touch_numbers)]\<close>\<close>

definition renumber :: "touch list \<Rightarrow> touch list" where
  "renumber ts = map (\<lambda>(i, t). t\<lparr>number := int i + 1\<rparr>) (enumerate 0 ts)"

text \<open>
  Lines 180 to 207: sort by start time, apply the two filters unless \<open>no_filter\<close> is set,
  log what they delete, and number the events. The result is the rows of the
  \<open>_touches.txt\<close> file and the log lines.
\<close>

definition finish :: "args \<Rightarrow> string \<Rightarrow> touch list \<Rightarrow> log_entry list
    \<Rightarrow> error + touch list \<times> log_entry list" where
  "finish a filename collected lg =
     (let touches = sort_key time collected in
      if no_filter a then Inr (renumber touches, lg)
      else
        case repeated_touches touches (150 / 1000) of
          None \<Rightarrow> Inl FilterError
        | Some (touches1, deleted1) \<Rightarrow>
            let lg1 = lg @ (if any_nonzero deleted1
                     then map (\<lambda>r. Repeated filename (channel r) (quantize (time r))
                                     (quantize (duration r))) deleted1
                     else []);
                (touches2, deleted2) = double_electrode touches1;
                lg2 = lg1 @ (if any_nonzero deleted2
                     then map (\<lambda>r. Double filename (channel r) (quantize (time r))
                                     (channel r + 2)) deleted2
                     else [])
            in Inr (renumber touches2, lg2))"

text \<open>
  The body of \<open>for filename in file_list\<close> for one file, given its raw table. The check
  of line 108 reads the number of rows from \<open>np.array(..., ndmin=2)\<close>: a table of a single
  row, and also a table of a single column (timestamps without any sensor), is a
  one-dimensional array there and has the shape of one row.
\<close>

definition process_file :: "args \<Rightarrow> string \<Rightarrow> raw_row list \<Rightarrow> error + touch list \<times> log_entry list" where
  "process_file a filename data =
     (if length data \<le> 1 \<or> snd (hd data) = [] then Inl NoTouchesDetected
      else
        let n_MPR121s = length (snd (hd data));
            ncols = n_MPR121s * 12 + 1
        in case decode n_MPR121s data of
             Inl e \<Rightarrow> Inl e
           | Inr newdata \<Rightarrow>
               let start = fst (hd newdata) in
               if sum_list (snd (hd newdata)) \<noteq> 0 then Inl FirstRowTouched
               else
                 case row_loop a filename start (ncols - 1) 1 (hd newdata) (tl newdata)
                        \<lparr>st_touches = [], st_temp = Map.empty, st_log = []\<rparr> of
                   Inl e \<Rightarrow> Inl e
                 | Inr st \<Rightarrow> finish a filename (st_touches st) (st_log st))"

text \<open>
  The loop \<open>for filename in file_list\<close> over the sorted files with their raw tables. It
  carries the \<open>_touches.txt\<close> files written so far and the log. An error of a file leaves
  the loop and the program (\<open>sys.exit(1)\<close>, or the uncaught exception): the result
  \<open>Inl\<close> names the file and the cause, and holds what had been written before.
\<close>

type_synonym written = "(string \<times> touch list) list"

fun batch :: "args \<Rightarrow> (string \<times> raw_row list) list \<Rightarrow> written \<Rightarrow> log_entry list
    \<Rightarrow> (string \<times> error \<times> written \<times> log_entry list) + (written \<times> log_entry list)" where
  "batch a [] out lg = Inr (out, lg)"
| "batch a ((filename, data) # files) out lg =
     (case process_file a filename data of
        Inl e \<Rightarrow> Inl (filename, e, out, lg)
      | Inr (touches, lines) \<Rightarrow> batch a files (out @ [(filename, touches)]) (lg @ lines))"

section \<open>Predicates used in the proofs\<close>

text \<open>
  \<open>gaps thr xs\<close>: every element of \<open>xs\<close> exceeds its successor by more than \<open>thr\<close>.
  For the start times of a channel's events, latest first, it says that no consecutive pair
  starts within the window.
\<close>

fun gaps :: "rat \<Rightarrow> rat list \<Rightarrow> bool" where
  "gaps thr (x # y # rest) \<longleftrightarrow> thr < x - y \<and> gaps thr (y # rest)"
| "gaps thr _ \<longleftrightarrow> True"

text \<open>Rows ordered by start time, the latest first, as \<open>rt\<close> is after line 30.\<close>

definition latest_first :: "touch list \<Rightarrow> bool" where
  "latest_first ts \<longleftrightarrow> sorted_wrt (\<lambda>a b. time b \<le> time a) ts"

definition settled :: "rat \<Rightarrow> touch list \<Rightarrow> bool" where
  "settled thr xs \<longleftrightarrow> latest_first xs \<and> gaps thr (map time xs)"

text \<open>
  No channel of \<open>ts\<close> has two consecutive events (in time order) starting within the window.
\<close>

definition quiet :: "rat \<Rightarrow> touch list \<Rightarrow> bool" where
  "quiet thr ts \<longleftrightarrow>
     (\<forall>c. gaps thr (rev (sort (map time (filter (\<lambda>t. channel t = c) ts)))))"

text \<open>
  The invariant of the scan: the channels in \<open>temp\<close> are the channels touched in row \<open>r\<close>,
  the row before the current one.
\<close>

definition open_matches :: "nat \<Rightarrow> scan_state \<Rightarrow> sample \<Rightarrow> bool" where
  "open_matches n st r \<longleftrightarrow> (\<forall>ch<n. ch \<in> dom (st_temp st) \<longleftrightarrow> snd r ! ch = 1)"

section \<open>Lemmas on double\_electrode\<close>

lemma while_loop_fixed:
  "while_loop ts del = (s, d) \<Longrightarrow> outer_loop s 0 s = None"
proof (induction ts del rule: while_loop.induct)
  case (1 touches deleted)
  show ?case
  proof (cases "outer_loop touches 0 touches")
    case None
    with "1.prems" show ?thesis by simp
  next
    case (Some p)
    obtain d' ts' where p: "p = (d', ts')" by (cases p)
    from "1.prems" Some p have "while_loop ts' (deleted @ [d']) = (s, d)" by simp
    from "1.IH" [OF Some p [symmetric] this] show ?thesis .
  qed
qed

lemma while_loop_length:
  "while_loop ts del = (s, d) \<Longrightarrow> length s + length d = length ts + length del"
proof (induction ts del rule: while_loop.induct)
  case (1 touches deleted)
  show ?case
  proof (cases "outer_loop touches 0 touches")
    case None
    with "1.prems" show ?thesis by simp
  next
    case (Some p)
    obtain d' ts' where p: "p = (d', ts')" by (cases p)
    from "1.prems" Some p have w: "while_loop ts' (deleted @ [d']) = (s, d)" by simp
    from Some p have "outer_loop touches 0 touches = Some (d', ts')" by simp
    from outer_loop_length [OF this] have "Suc (length ts') = length touches" by simp
    with "1.IH" [OF Some p [symmetric] w] show ?thesis by simp
  qed
qed

lemma while_loop_stable:
  "outer_loop s 0 s = None \<Longrightarrow> while_loop s del = (s, del)"
  by simp

lemma filter_sorted_prefix:
  "sorted (map time ts) \<Longrightarrow>
     filter (\<lambda>t. time t \<le> b) ts = takeWhile (\<lambda>t. time t \<le> b) ts"
proof (induction ts)
  case Nil
  then show ?case by simp
next
  case (Cons a ts)
  show ?case
  proof (cases "time a \<le> b")
    case True
    with Cons show ?thesis by simp
  next
    case False
    with Cons.prems have "\<forall>t\<in>set ts. \<not> time t \<le> b" by auto
    then have "filter (\<lambda>t. time t \<le> b) ts = []" by (simp add: filter_empty_conv)
    with False show ?thesis by simp
  qed
qed

lemma within_time_nth:
  assumes "sorted (map time sub)" "j < length (within_time e sub)"
  shows "within_time e sub ! j = sub ! j"
  using assms unfolding within_time_def
  by (simp add: filter_sorted_prefix takeWhile_nth)

lemma outer_loop_deletes:
  "outer_loop ts row sub = Some (d, ts') \<Longrightarrow> drop row ts = sub \<Longrightarrow> sorted (map time sub)
     \<Longrightarrow> \<exists>i<length ts. d = ts ! i \<and> ts' = delete_row i ts"
proof (induction sub arbitrary: row)
  case Nil
  then show ?case by simp
next
  case (Cons e sub)
  from Cons.prems(2) have row: "row < length ts"
    by (cases "row < length ts") simp_all
  from Cons.prems(2) have e: "ts ! row = e"
    using hd_drop_conv_nth [OF row] by simp
  from Cons.prems(2) have sub: "drop (Suc row) ts = sub"
    using tl_drop [of row ts] by (simp add: drop_Suc)
  from Cons.prems(3) have srt: "sorted (map time sub)" by simp
  show ?case
  proof (cases "inner_loop (channel e) (within_time e sub) 0")
    case None
    with Cons.prems(1) have "outer_loop ts (Suc row) sub = Some (d, ts')" by simp
    from Cons.IH [OF this sub srt] show ?thesis .
  next
    case (Some row2)
    from inner_loop_bound [OF Some] have r2: "row2 < length (within_time e sub)" by simp
    with length_within_time [of e sub] have r2': "row2 < length sub" by simp
    then have in_range: "row + row2 + 1 < length ts" using sub by auto
    have nth: "within_time e sub ! row2 = ts ! (row + row2 + 1)"
      using within_time_nth [OF srt r2] sub [symmetric] r2' by (simp add: add.commute)
    show ?thesis
    proof (cases "channel e < channel (within_time e sub ! row2)")
      case True
      with Cons.prems(1) Some have "d = e" "ts' = delete_row row ts" by (simp_all add: Let_def)
      with row e show ?thesis by blast
    next
      case False
      with Cons.prems(1) Some have "d = within_time e sub ! row2"
        "ts' = delete_row (row + row2 + 1) ts" by (simp_all add: Let_def)
      with in_range nth show ?thesis by blast
    qed
  qed
qed

lemma mset_delete_row:
  assumes i: "i < length xs"
  shows "mset (delete_row i xs) + {#xs ! i#} = mset xs"
proof -
  have "mset xs = mset (take i xs @ xs ! i # drop (Suc i) xs)"
    using i by (simp add: id_take_nth_drop [symmetric])
  then show ?thesis by (simp add: delete_row_def)
qed

lemma sorted_delete_row:
  assumes "sorted (map f xs)"
  shows "sorted (map f (delete_row i xs))"
proof -
  let ?a = "map f (take i xs)" and ?b = "map f (drop i xs)"
  have ab: "sorted (?a @ ?b)"
    using assms by (simp flip: map_append)
  have "drop (Suc i) xs = tl (drop i xs)" by (simp add: drop_Suc tl_drop)
  then have b': "map f (drop (Suc i) xs) = tl ?b" by (simp add: map_tl)
  have "sorted (?a @ tl ?b)"
    using ab unfolding sorted_append by (cases "drop i xs") auto
  with b' show ?thesis by (simp add: delete_row_def)
qed

lemma while_loop_mset:
  "while_loop ts del = (s, d) \<Longrightarrow> sorted (map time ts)
     \<Longrightarrow> mset s + mset d = mset ts + mset del \<and> sorted (map time s)"
proof (induction ts del rule: while_loop.induct)
  case (1 touches deleted)
  show ?case
  proof (cases "outer_loop touches 0 touches")
    case None
    with "1.prems" show ?thesis by simp
  next
    case (Some p)
    obtain d' ts' where p: "p = (d', ts')" by (cases p)
    from "1.prems" Some p have w: "while_loop ts' (deleted @ [d']) = (s, d)" by simp
    from Some p have o: "outer_loop touches 0 touches = Some (d', ts')" by simp
    from outer_loop_deletes [OF o _ "1.prems"(2)] obtain i where
      i: "i < length touches" "d' = touches ! i" "ts' = delete_row i touches" by auto
    from i "1.prems"(2) have "sorted (map time ts')" by (simp add: sorted_delete_row)
    from "1.IH" [OF Some p [symmetric] w this] mset_delete_row [OF i(1)] i
    show ?thesis by (simp add: union_commute union_assoc) 
  qed
qed

lemma while_loop_fuel_enough:
  "length ts < n \<Longrightarrow> while_loop_fuel n ts del = Some (while_loop ts del)"
proof (induction n arbitrary: ts del)
  case 0
  then show ?case by simp
next
  case (Suc n)
  show ?case
  proof (cases "outer_loop ts 0 ts")
    case None
    then show ?thesis by simp
  next
    case (Some p)
    obtain d ts' where p: "p = (d, ts')" by (cases p)
    from Some p have "outer_loop ts 0 ts = Some (d, ts')" by simp
    from outer_loop_length [OF this] Suc.prems have "length ts' < n" by simp
    from Suc.IH [OF this, of "del @ [d]"] Some p show ?thesis by simp
  qed
qed

section \<open>Lemmas on repeated\_touches\<close>

lemma for_loop_no_error:
  "sub \<noteq> [] \<Longrightarrow> tl sub \<noteq> [] \<Longrightarrow> for_loop thr pre sub \<noteq> IndexError \<and> for_loop thr pre sub \<noteq> Exhausted"
  by (induction thr pre sub rule: for_loop.induct) auto

lemma for_loop_restart:
  "for_loop thr pre sub = Restart d sub' \<Longrightarrow>
     \<exists>i. Suc i < length sub
       \<and> (\<forall>j<i. thr < time (sub ! j) - time (sub ! Suc j))
       \<and> time (sub ! i) - time (sub ! Suc i) \<le> thr
       \<and> (if duration (sub ! i) < duration (sub ! Suc i) \<or> channel (sub ! i) = 47
          then d = sub ! i \<and> sub' = pre @ delete_row i sub
          else d = sub ! Suc i \<and> sub' = pre @ delete_row (Suc i) sub)"
proof (induction thr pre sub rule: for_loop.induct)
  case (1 thr pre x y rest)
  show ?case
  proof (cases "time x - time y \<le> thr")
    case True
    with "1.prems" have "Suc 0 < length (x # y # rest)
       \<and> (\<forall>j<0::nat. thr < time ((x # y # rest) ! j) - time ((x # y # rest) ! Suc j))
       \<and> time ((x # y # rest) ! 0) - time ((x # y # rest) ! Suc 0) \<le> thr
       \<and> (if duration ((x # y # rest) ! 0) < duration ((x # y # rest) ! Suc 0) \<or> channel ((x # y # rest) ! 0) = 47
          then d = (x # y # rest) ! 0 \<and> sub' = pre @ delete_row 0 (x # y # rest)
          else d = (x # y # rest) ! Suc 0 \<and> sub' = pre @ delete_row (Suc 0) (x # y # rest))"
      by (auto simp: delete_row_def split: if_splits)
    then show ?thesis by blast
  next
    case False
    with "1.prems" have rest: "rest \<noteq> []" and
      rec: "for_loop thr (pre @ [x]) (y # rest) = Restart d sub'"
      by (auto split: if_splits)
    from "1.IH"(2) [OF False rest rec] obtain i where
      i: "Suc i < length (y # rest)"
         "\<forall>j<i. thr < time ((y # rest) ! j) - time ((y # rest) ! Suc j)"
         "time ((y # rest) ! i) - time ((y # rest) ! Suc i) \<le> thr"
         "if duration ((y # rest) ! i) < duration ((y # rest) ! Suc i) \<or> channel ((y # rest) ! i) = 47
          then d = (y # rest) ! i \<and> sub' = (pre @ [x]) @ delete_row i (y # rest)
          else d = (y # rest) ! Suc i \<and> sub' = (pre @ [x]) @ delete_row (Suc i) (y # rest)"
      by blast
    have "\<forall>j<Suc i. thr < time ((x # y # rest) ! j) - time ((x # y # rest) ! Suc j)"
    proof (intro allI impI)
      fix j assume "j < Suc i"
      then show "thr < time ((x # y # rest) ! j) - time ((x # y # rest) ! Suc j)"
        using i(2) False by (cases j) auto
    qed
    moreover have "delete_row (Suc k) (x # y # rest) = x # delete_row k (y # rest)" for k
      by (simp add: delete_row_def)
    ultimately have "Suc (Suc i) < length (x # y # rest)
       \<and> (\<forall>j<Suc i. thr < time ((x # y # rest) ! j) - time ((x # y # rest) ! Suc j))
       \<and> time ((x # y # rest) ! Suc i) - time ((x # y # rest) ! Suc (Suc i)) \<le> thr
       \<and> (if duration ((x # y # rest) ! Suc i) < duration ((x # y # rest) ! Suc (Suc i)) \<or> channel ((x # y # rest) ! Suc i) = 47
          then d = (x # y # rest) ! Suc i \<and> sub' = pre @ delete_row (Suc i) (x # y # rest)
          else d = (x # y # rest) ! Suc (Suc i) \<and> sub' = pre @ delete_row (Suc (Suc i)) (x # y # rest))"
      using i by (simp split: if_splits)
    then show ?thesis by blast
  qed
qed simp_all

lemma for_loop_stop:
  "for_loop thr pre sub = Stop \<Longrightarrow> gaps thr (map time sub)"
  by (induction thr pre sub rule: for_loop.induct) (auto split: if_splits)

lemma gaps_for_loop:
  "gaps thr (map time sub) \<Longrightarrow> sub \<noteq> [] \<Longrightarrow> tl sub \<noteq> [] \<Longrightarrow> for_loop thr pre sub = Stop"
  by (induction thr pre sub rule: for_loop.induct) (auto split: if_splits)


lemma sorted_wrt_delete_row:
  "sorted_wrt P xs \<Longrightarrow> sorted_wrt P (delete_row i xs)"
proof -
  assume a: "sorted_wrt P xs"
  have "xs = take i xs @ drop i xs" by simp
  with a have "sorted_wrt P (take i xs @ drop i xs)" by simp
  then have "sorted_wrt P (take i xs @ tl (drop i xs))"
    unfolding sorted_wrt_append by (cases "drop i xs") auto
  then show ?thesis by (simp add: delete_row_def drop_Suc tl_drop)
qed

lemma for_loop_restart_row:
  assumes "for_loop thr [] sub = Restart d sub'"
  shows "\<exists>i<length sub. d = sub ! i \<and> sub' = delete_row i sub"
proof -
  from for_loop_restart [OF assms] obtain i where
    "Suc i < length sub"
    "if duration (sub ! i) < duration (sub ! Suc i) \<or> channel (sub ! i) = 47
     then d = sub ! i \<and> sub' = [] @ delete_row i sub
     else d = sub ! Suc i \<and> sub' = [] @ delete_row (Suc i) sub" by blast
  then show ?thesis
    by (cases "duration (sub ! i) < duration (sub ! Suc i) \<or> channel (sub ! i) = 47")
      (auto intro: exI [of _ i] exI [of _ "Suc i"])
qed

lemma gaps_short: "length xs < 2 \<Longrightarrow> gaps thr xs"
  by (cases xs; cases "tl xs") auto

lemma rt_while_result:
  "2 \<le> length sub \<Longrightarrow>
     \<exists>F D. rt_while thr sub no_rt del = Some (no_rt @ F, del @ D)
       \<and> mset F + mset D = mset sub
       \<and> (latest_first sub \<longrightarrow> latest_first F)
       \<and> gaps thr (map time F)"
proof (induction thr sub no_rt del rule: rt_while.induct)
  case (1 thr subarray no_rt deleted)
  from "1.prems" have len: "1 < length subarray" by simp
  then have ne: "subarray \<noteq> []" "tl subarray \<noteq> []"
    by (cases subarray; cases "tl subarray"; simp)+
  show ?case
  proof (cases "for_loop thr [] subarray")
    case (Restart d sub')
    from for_loop_restart_row [OF Restart] obtain i where
      i: "i < length subarray" "d = subarray ! i" "sub' = delete_row i subarray" by blast
    from mset_delete_row [OF i(1)] i have ms: "mset sub' + {#d#} = mset subarray" by simp
    have lf: "latest_first subarray \<longrightarrow> latest_first sub'"
      using i(3) by (simp add: latest_first_def sorted_wrt_delete_row)
    show ?thesis
    proof (cases "length sub' < 2")
      case True
      then have "rt_while thr sub' (no_rt @ sub') (deleted @ [d]) = Some (no_rt @ sub', deleted @ [d])"
        by (subst rt_while.simps) simp
      with len Restart True have "rt_while thr subarray no_rt deleted = Some (no_rt @ sub', deleted @ [d])"
        by (subst rt_while.simps) simp
      with ms lf gaps_short [of "map time sub'" thr] True show ?thesis by fastforce
    next
      case False
      then have "2 \<le> length sub'" by simp
      from "1.IH" [OF len Restart this] False obtain F D where
        fd: "rt_while thr sub' no_rt (deleted @ [d]) = Some (no_rt @ F, (deleted @ [d]) @ D)"
            "mset F + mset D = mset sub'" "latest_first sub' \<longrightarrow> latest_first F"
            "gaps thr (map time F)" by auto
      from len Restart False fd(1)
      have "rt_while thr subarray no_rt deleted = Some (no_rt @ F, deleted @ (d # D))"
        by (subst rt_while.simps) simp
      moreover from fd(2) ms have "mset F + mset (d # D) = mset subarray" by simp
      ultimately show ?thesis using lf fd(3,4) by blast
    qed
  next
    case Stop
    with len have "rt_while thr subarray no_rt deleted = Some (no_rt @ subarray, deleted @ [])"
      by (subst rt_while.simps) simp
    with for_loop_stop [OF Stop] show ?thesis by fastforce
  next
    case IndexError
    with for_loop_no_error [OF ne] show ?thesis by blast
  next
    case Exhausted
    with for_loop_no_error [OF ne] show ?thesis by blast
  qed
qed

lemma sort_map_time: "sort (map f xs) = map f (sort_key f xs)"
  by (rule properties_for_sort) simp_all

lemma latest_first_rev_sort: "latest_first (rev (sort_key time xs))"
  using sorted_sort_key [of time xs]
  by (simp add: latest_first_def sorted_wrt_rev sorted_map)

lemma latest_first_filter: "latest_first xs \<Longrightarrow> latest_first (filter P xs)"
  by (simp add: latest_first_def sorted_wrt_filter)

lemma latest_first_times:
  assumes "latest_first xs"
  shows "rev (sort (map time xs)) = map time xs"
proof -
  from assms have "sorted (rev (map time xs))"
    by (simp add: latest_first_def sorted_wrt_rev sorted_wrt_map flip: rev_map)
  then have "sort (map time xs) = rev (map time xs)"
    by (intro properties_for_sort) simp_all
  then show ?thesis by simp
qed

lemma filter_channel_subset:
  assumes "mset F + mset D = mset (filter (\<lambda>t. channel t = c) rt)"
  shows "filter (\<lambda>t. channel t = c') F = (if c' = c then F else [])"
proof -
  have "set F \<subseteq> set (filter (\<lambda>t. channel t = c) rt)"
    using assms by (metis mset_subset_eqD mset_subset_eq_add_left set_mset_mset subsetI)
  then have "\<forall>t\<in>set F. channel t = c" by auto
  then show ?thesis by (auto simp: filter_empty_conv)
qed

lemma mset_filter_insert:
  "c \<notin> set chs \<Longrightarrow>
     mset (filter (\<lambda>t. channel t = c) rt) + mset (filter (\<lambda>t. channel t \<in> set chs) rt)
       = mset (filter (\<lambda>t. channel t \<in> set (c # chs)) rt)"
  by (induction rt) auto

lemma channel_loop_result:
  assumes "distinct chs" "\<forall>c\<in>set chs. 2 \<le> length (filter (\<lambda>t. channel t = c) rt)"
    "latest_first rt"
  shows "\<exists>N D. channel_loop thr rt chs no_rt del = Some (no_rt @ N, del @ D)
       \<and> mset N + mset D = mset (filter (\<lambda>t. channel t \<in> set chs) rt)
       \<and> (\<forall>c. c \<notin> set chs \<longrightarrow> filter (\<lambda>t. channel t = c) N = [])
       \<and> (\<forall>c. settled thr (filter (\<lambda>t. channel t = c) N))"
  using assms
proof (induction chs arbitrary: no_rt del)
  case Nil
  then show ?case by (simp add: settled_def latest_first_def)
next
  case (Cons c chs)
  let ?sub = "filter (\<lambda>t. channel t = c) rt"
  from Cons.prems have len: "2 \<le> length ?sub" by simp
  from rt_while_result [OF len, of thr no_rt del] obtain F D1 where
    fd: "rt_while thr ?sub no_rt del = Some (no_rt @ F, del @ D1)"
        "mset F + mset D1 = mset ?sub" "latest_first ?sub \<longrightarrow> latest_first F"
        "gaps thr (map time F)" by blast
  from fd(3) Cons.prems(3) have lf: "latest_first F" by (simp add: latest_first_filter)
  note fc = filter_channel_subset [OF fd(2)]
  from Cons.prems have "distinct chs" "\<forall>c\<in>set chs. 2 \<le> length (filter (\<lambda>t. channel t = c) rt)"
    by simp_all
  from Cons.IH [OF this Cons.prems(3), of "no_rt @ F" "del @ D1"] obtain N' D' where
    nd: "channel_loop thr rt chs (no_rt @ F) (del @ D1) = Some ((no_rt @ F) @ N', (del @ D1) @ D')"
        "mset N' + mset D' = mset (filter (\<lambda>t. channel t \<in> set chs) rt)"
        "\<forall>c. c \<notin> set chs \<longrightarrow> filter (\<lambda>t. channel t = c) N' = []"
        "\<forall>c. settled thr (filter (\<lambda>t. channel t = c) N')" by blast
  from Cons.prems(1) have cn: "c \<notin> set chs" by simp
  have 1: "channel_loop thr rt (c # chs) no_rt del = Some (no_rt @ (F @ N'), del @ (D1 @ D'))"
    using fd(1) nd(1) by simp
  have "mset (F @ N') + mset (D1 @ D') = (mset F + mset D1) + (mset N' + mset D')"
    by simp
  also have "\<dots> = mset (filter (\<lambda>t. channel t \<in> set (c # chs)) rt)"
    unfolding fd(2) nd(2) by (rule mset_filter_insert [OF cn])
  finally have 2: "mset (F @ N') + mset (D1 @ D')
      = mset (filter (\<lambda>t. channel t \<in> set (c # chs)) rt)" .
  have 3: "\<forall>c'. c' \<notin> set (c # chs) \<longrightarrow> filter (\<lambda>t. channel t = c') (F @ N') = []"
    using fc nd(3) by simp
  have 4: "settled thr (filter (\<lambda>t. channel t = c') (F @ N'))" for c'
  proof (cases "c' = c")
    case True
    with fc nd(3) cn have "filter (\<lambda>t. channel t = c') (F @ N') = F" by simp
    with lf fd(4) show ?thesis by (simp add: settled_def)
  next
    case False
    with fc have "filter (\<lambda>t. channel t = c') (F @ N') = filter (\<lambda>t. channel t = c') N'" by simp
    with nd(4) show ?thesis by simp
  qed
  from 1 2 3 4 show ?case by blast
qed

lemma count_list_channel:
  "count_list (map channel ts) c = length (filter (\<lambda>t. channel t = c) ts)"
  by (induction ts) auto

lemma distinct_repeated_touched_channels: "distinct (repeated_touched_channels ts)"
  by (simp add: repeated_touched_channels_def Let_def)

lemma set_repeated_touched_channels:
  "c \<in> set (repeated_touched_channels ts) \<longleftrightarrow> 2 \<le> length (filter (\<lambda>t. channel t = c) ts)"
proof -
  have "c \<in> channel ` set ts" if "2 \<le> length (filter (\<lambda>t. channel t = c) ts)"
  proof -
    from that have "filter (\<lambda>t. channel t = c) ts \<noteq> []" by auto
    then show ?thesis by (auto simp: filter_empty_conv)
  qed
  then show ?thesis
    by (auto simp: repeated_touched_channels_def Let_def count_list_channel)
qed

lemma filter_channel_mask:
  "c \<in> set chs \<Longrightarrow> filter (\<lambda>t. channel t = c) (filter (\<lambda>t. channel t \<in> set chs) ts)
     = filter (\<lambda>t. channel t = c) ts"
  by (induction ts) auto

lemma filter_channel_unmasked:
  "filter (\<lambda>t. channel t = c) (filter (\<lambda>t. channel t \<notin> set chs) ts)
     = (if c \<in> set chs then [] else filter (\<lambda>t. channel t = c) ts)"
  by (induction ts) auto

lemma filter_channel_rt:
  assumes "c \<in> set chs"
  shows "filter (\<lambda>t. channel t = c) (rev (sort_key time (filter (\<lambda>t. channel t \<in> set chs) ts)))
     = rev (sort_key time (filter (\<lambda>t. channel t = c) ts))"
  by (simp only: rev_filter [symmetric] filter_sort filter_channel_mask [OF assms])

lemma mset_mask_partition:
  "mset (filter (\<lambda>t. \<not> P t) ts) + mset (filter P ts) = mset ts"
  by (induction ts) auto

lemma repeated_touches_result:
  fixes ts thr
  defines "chs \<equiv> repeated_touched_channels ts"
  shows "\<exists>N D. repeated_touches ts thr
          = Some (sort_key time (filter (\<lambda>t. channel t \<notin> set chs) ts @ N), sort_key time D)
       \<and> mset N + mset D = mset (filter (\<lambda>t. channel t \<in> set chs) ts)
       \<and> (\<forall>c. c \<notin> set chs \<longrightarrow> filter (\<lambda>t. channel t = c) N = [])
       \<and> (\<forall>c. settled thr (filter (\<lambda>t. channel t = c) N))"
proof -
  let ?rt = "rev (sort_key time (filter (\<lambda>t. channel t \<in> set chs) ts))"
  have d: "distinct chs" by (simp add: chs_def distinct_repeated_touched_channels)
  have l: "\<forall>c\<in>set chs. 2 \<le> length (filter (\<lambda>t. channel t = c) ?rt)"
  proof
    fix c assume c: "c \<in> set chs"
    then have "2 \<le> length (filter (\<lambda>t. channel t = c) ts)"
      by (simp add: chs_def set_repeated_touched_channels)
    then show "2 \<le> length (filter (\<lambda>t. channel t = c) ?rt)"
      by (simp add: filter_channel_rt [OF c])
  qed
  from channel_loop_result [OF d l latest_first_rev_sort,
      of thr "filter (\<lambda>t. channel t \<notin> set chs) ts" "[]"]
  obtain N D where
    nd: "channel_loop thr ?rt chs (filter (\<lambda>t. channel t \<notin> set chs) ts) []
           = Some (filter (\<lambda>t. channel t \<notin> set chs) ts @ N, [] @ D)"
        "mset N + mset D = mset (filter (\<lambda>t. channel t \<in> set chs) ?rt)"
        "\<forall>c. c \<notin> set chs \<longrightarrow> filter (\<lambda>t. channel t = c) N = []"
        "\<forall>c. settled thr (filter (\<lambda>t. channel t = c) N)" by blast
  have "filter (\<lambda>t. channel t \<in> set chs) ?rt = ?rt"
    by (simp add: rev_filter [symmetric] filter_sort)
  with nd(2) have "mset N + mset D = mset (filter (\<lambda>t. channel t \<in> set chs) ts)" by simp
  moreover from nd(1) have "repeated_touches ts thr
      = Some (sort_key time (filter (\<lambda>t. channel t \<notin> set chs) ts @ N), sort_key time D)"
    by (simp add: repeated_touches_def Let_def chs_def)
  ultimately show ?thesis using nd(3,4) by blast
qed

lemma repeated_touches_conserves:
  "\<exists>s d. repeated_touches ts thr = Some (s, d) \<and> mset s + mset d = mset ts
     \<and> sorted (map time s) \<and> sorted (map time d) \<and> quiet thr s"
proof -
  let ?chs = "repeated_touched_channels ts"
  let ?no = "filter (\<lambda>t. channel t \<notin> set ?chs) ts"
  from repeated_touches_result [of ts thr] obtain N D where
    nd: "repeated_touches ts thr = Some (sort_key time (?no @ N), sort_key time D)"
        "mset N + mset D = mset (filter (\<lambda>t. channel t \<in> set ?chs) ts)"
        "\<forall>c. c \<notin> set ?chs \<longrightarrow> filter (\<lambda>t. channel t = c) N = []"
        "\<forall>c. settled thr (filter (\<lambda>t. channel t = c) N)" by blast
  have "mset (sort_key time (?no @ N)) + mset (sort_key time D) = mset ?no + (mset N + mset D)"
    by simp
  also have "\<dots> = mset ts"
    unfolding nd(2) by (rule mset_mask_partition)
  finally have ms: "mset (sort_key time (?no @ N)) + mset (sort_key time D) = mset ts" .
  have "gaps thr (rev (sort (map time (filter (\<lambda>t. channel t = c) (sort_key time (?no @ N))))))"
    for c
  proof -
    let ?X = "filter (\<lambda>t. channel t = c) (?no @ N)"
    have eq: "sort (map time (filter (\<lambda>t. channel t = c) (sort_key time (?no @ N))))
        = sort (map time ?X)"
      by (simp only: filter_sort sort_map_time [symmetric] sorted_sort_id [OF sorted_sort])
    show ?thesis
    proof (cases "c \<in> set ?chs")
      case True
      then have "?X = filter (\<lambda>t. channel t = c) N"
        by (simp only: filter_append filter_channel_unmasked if_True append_Nil)
      moreover from nd(4) have "settled thr (filter (\<lambda>t. channel t = c) N)" by blast
      ultimately show ?thesis unfolding eq
        by (simp add: settled_def latest_first_times)
    next
      case False
      from False nd(3) have "filter (\<lambda>t. channel t = c) N = []" by blast
      with False have "?X = filter (\<lambda>t. channel t = c) ts"
        by (simp only: filter_append filter_channel_unmasked if_False append_Nil2)
      moreover from False have "length (filter (\<lambda>t. channel t = c) ts) < 2"
        by (simp add: set_repeated_touched_channels)
      ultimately show ?thesis unfolding eq by (simp add: gaps_short)
    qed
  qed
  then have "quiet thr (sort_key time (?no @ N))" by (simp add: quiet_def)
  with nd(1) ms show ?thesis by simp
qed

lemma rt_while_settled:
  assumes "2 \<le> length sub" "gaps thr (map time sub)"
  shows "rt_while thr sub no_rt del = Some (no_rt @ sub, del)"
proof -
  from assms(1) have ne: "sub \<noteq> []" "tl sub \<noteq> []"
    by (cases sub; cases "tl sub"; simp)+
  from gaps_for_loop [OF assms(2) ne] have "for_loop thr [] sub = Stop" .
  with assms(1) show ?thesis by (subst rt_while.simps) simp
qed

lemma channel_loop_settled:
  assumes "distinct chs"
    "\<forall>c\<in>set chs. 2 \<le> length (filter (\<lambda>t. channel t = c) rt)
        \<and> gaps thr (map time (filter (\<lambda>t. channel t = c) rt))"
  shows "\<exists>N. channel_loop thr rt chs no_rt del = Some (no_rt @ N, del)
       \<and> mset N = mset (filter (\<lambda>t. channel t \<in> set chs) rt)"
  using assms
proof (induction chs arbitrary: no_rt)
  case Nil
  then show ?case by simp
next
  case (Cons c chs)
  let ?sub = "filter (\<lambda>t. channel t = c) rt"
  from Cons.prems(2) have "2 \<le> length ?sub" "gaps thr (map time ?sub)" by simp_all
  from rt_while_settled [OF this]
  have w: "rt_while thr ?sub no_rt del = Some (no_rt @ ?sub, del)" .
  from Cons.prems have "distinct chs"
    "\<forall>c\<in>set chs. 2 \<le> length (filter (\<lambda>t. channel t = c) rt)
        \<and> gaps thr (map time (filter (\<lambda>t. channel t = c) rt))" by simp_all
  from Cons.IH [OF this, of "no_rt @ ?sub"] obtain N' where
    n: "channel_loop thr rt chs (no_rt @ ?sub) del = Some ((no_rt @ ?sub) @ N', del)"
       "mset N' = mset (filter (\<lambda>t. channel t \<in> set chs) rt)" by blast
  from Cons.prems(1) have cn: "c \<notin> set chs" by simp
  have "channel_loop thr rt (c # chs) no_rt del = Some (no_rt @ (?sub @ N'), del)"
    using w n(1) by simp
  moreover have "mset (?sub @ N') = mset (filter (\<lambda>t. channel t \<in> set (c # chs)) rt)"
    using n(2) mset_filter_insert [OF cn, of rt] by simp
  ultimately show ?case by blast
qed

lemma repeated_touches_quiet:
  assumes "quiet thr ts"
  shows "\<exists>s. repeated_touches ts thr = Some (s, []) \<and> mset s = mset ts \<and> sorted (map time s)"
proof -
  let ?chs = "repeated_touched_channels ts"
  let ?no = "filter (\<lambda>t. channel t \<notin> set ?chs) ts"
  let ?rt = "rev (sort_key time (filter (\<lambda>t. channel t \<in> set ?chs) ts))"
  have "\<forall>c\<in>set ?chs. 2 \<le> length (filter (\<lambda>t. channel t = c) ?rt)
        \<and> gaps thr (map time (filter (\<lambda>t. channel t = c) ?rt))"
  proof
    fix c assume c: "c \<in> set ?chs"
    then have "2 \<le> length (filter (\<lambda>t. channel t = c) ts)"
      by (simp add: set_repeated_touched_channels)
    moreover from assms have "gaps thr (rev (sort (map time (filter (\<lambda>t. channel t = c) ts))))"
      by (simp add: quiet_def)
    ultimately show "2 \<le> length (filter (\<lambda>t. channel t = c) ?rt)
        \<and> gaps thr (map time (filter (\<lambda>t. channel t = c) ?rt))"
      by (simp add: filter_channel_rt [OF c] rev_map sort_map_time)
  qed
  from channel_loop_settled [OF distinct_repeated_touched_channels this, of ?no "[]"]
  obtain N where
    n: "channel_loop thr ?rt ?chs ?no [] = Some (?no @ N, [])"
       "mset N = mset (filter (\<lambda>t. channel t \<in> set ?chs) ?rt)" by blast
  have "filter (\<lambda>t. channel t \<in> set ?chs) ?rt = ?rt"
    by (simp add: rev_filter [symmetric] filter_sort)
  with n(2) have "mset N = mset (filter (\<lambda>t. channel t \<in> set ?chs) ts)" by simp
  then have "mset (sort_key time (?no @ N)) = mset ts"
    using mset_mask_partition [of "\<lambda>t. channel t \<in> set ?chs" ts] by simp
  moreover from n(1) have "repeated_touches ts thr = Some (sort_key time (?no @ N), [])"
    by (simp add: repeated_touches_def Let_def)
  ultimately show ?thesis by simp
qed

lemma sorted_unique:
  assumes "sorted (map f xs)" "sorted (map f ys)" "mset xs = mset ys" "distinct (map f xs)"
  shows "ys = xs"
proof -
  from assms(3) have "mset (map f xs) = mset (map f ys)" by simp
  with assms(4) have dy: "distinct (map f ys)" using mset_eq_imp_distinct_iff by blast
  from assms(3) have s: "set xs = set ys" by (rule mset_eq_setD)
  from assms(4) have "inj_on f (set xs)" by (simp add: distinct_map)
  with s have "inj_on f (set ys \<union> set xs)" by simp
  from map_sorted_distinct_set_unique [OF this assms(2) dy assms(1,4) s [symmetric]]
  show ?thesis .
qed

section \<open>Claims on the filters\<close>

text \<open>
  Claim C1 (Double-Electrode Filter, adjacency test). The claim excludes every pair that
  involves the finish channel 0 or the start channel 47. The test of line 129 only
  excludes a first (earlier) event on channel 0 and a second (later) event on channel 0
  or 47: an earlier event on the start channel 47 followed within 150 ms by an event on
  channel 45 is collapsed, and the event on channel 45 is deleted.
\<close>

theorem double_electrode_start_channel_collapsed:
  "double_electrode
     [\<lparr>number = 0, channel = 47, time = 1, duration = 1 / 2\<rparr>,
      \<lparr>number = 0, channel = 45, time = 11 / 10, duration = 1 / 5\<rparr>]
   = ([\<lparr>number = 0, channel = 47, time = 1, duration = 1 / 2\<rparr>],
      [\<lparr>number = 0, channel = 45, time = 11 / 10, duration = 1 / 5\<rparr>])"
  by (simp add: double_electrode_def within_time_def adjacent_def delete_row_def)





text \<open>
  Claim C6 (conservation). For every input list and window, the Repeated-Touch Filter returns
  survivors and deletions whose counts add up to the number of input events, and together
  they are exactly the input events (as a multiset: none lost, none duplicated). For every
  input list the Double-Electrode Filter returns survivors and deletions whose counts add up
  to the number of input events; on a time-ordered list, and so on the survivors of the
  Repeated-Touch Filter that the stage is given, together they are exactly the input events.
\<close>

theorem filters_conserve_events:
  "(\<exists>s d. repeated_touches ts w = Some (s, d)
       \<and> length s + length d = length ts \<and> mset s + mset d = mset ts
       \<and> mset (fst (double_electrode s)) + mset (snd (double_electrode s)) = mset s)
   \<and> length (fst (double_electrode ts)) + length (snd (double_electrode ts)) = length ts
   \<and> (sorted (map time ts) \<longrightarrow>
        mset (fst (double_electrode ts)) + mset (snd (double_electrode ts)) = mset ts)"
proof -
  have de: "mset (fst (double_electrode xs)) + mset (snd (double_electrode xs)) = mset xs"
    if "sorted (map time xs)" for xs
  proof -
    obtain s d where sd: "while_loop xs [] = (s, d)" by (cases "while_loop xs []")
    from while_loop_mset [OF this that] sd show ?thesis
      by (simp add: double_electrode_def)
  qed
  from repeated_touches_conserves [of ts w] obtain s d where
    sd: "repeated_touches ts w = Some (s, d)" "mset s + mset d = mset ts"
      "sorted (map time s)" by blast
  from sd(2) have "size (mset s + mset d) = size (mset ts)" by simp
  then have "length s + length d = length ts" by simp
  with sd(1,2) de [OF sd(3)] have 1: "\<exists>s d. repeated_touches ts w = Some (s, d)
       \<and> length s + length d = length ts \<and> mset s + mset d = mset ts
       \<and> mset (fst (double_electrode s)) + mset (snd (double_electrode s)) = mset s"
    by blast
  obtain s' d' where "while_loop ts [] = (s', d')" by (cases "while_loop ts []")
  from while_loop_length [OF this] this
  have 2: "length (fst (double_electrode ts)) + length (snd (double_electrode ts)) = length ts"
    by (simp add: double_electrode_def)
  from 1 2 de show ?thesis by blast
qed

theorem filters_conserve_events_witness:
  "sorted (map time
     [\<lparr>number = 0, channel = 10, time = 1, duration = 1 / 5\<rparr>,
      \<lparr>number = 0, channel = 12, time = 11 / 10, duration = 1 / 5\<rparr>])
   \<and> double_electrode
       [\<lparr>number = 0, channel = 10, time = 1, duration = 1 / 5\<rparr>,
        \<lparr>number = 0, channel = 12, time = 11 / 10, duration = 1 / 5\<rparr>]
     = ([\<lparr>number = 0, channel = 12, time = 11 / 10, duration = 1 / 5\<rparr>],
        [\<lparr>number = 0, channel = 10, time = 1, duration = 1 / 5\<rparr>])
   \<and> mset (fst (double_electrode
       [\<lparr>number = 0, channel = 10, time = 1, duration = 1 / 5\<rparr>,
        \<lparr>number = 0, channel = 12, time = 11 / 10, duration = 1 / 5\<rparr>]))
     + mset (snd (double_electrode
       [\<lparr>number = 0, channel = 10, time = 1, duration = 1 / 5\<rparr>,
        \<lparr>number = 0, channel = 12, time = 11 / 10, duration = 1 / 5\<rparr>]))
     = mset [\<lparr>number = 0, channel = 10, time = 1, duration = 1 / 5\<rparr>,
        \<lparr>number = 0, channel = 12, time = 11 / 10, duration = 1 / 5\<rparr>]"
proof -
  let ?ts = "[\<lparr>number = 0, channel = 10, time = 1, duration = 1 / 5\<rparr>,
      \<lparr>number = 0, channel = 12, time = 11 / 10, duration = 1 / 5\<rparr>]"
  have srt: "sorted (map time ?ts)" by simp
  have run: "double_electrode ?ts
     = ([\<lparr>number = 0, channel = 12, time = 11 / 10, duration = 1 / 5\<rparr>],
        [\<lparr>number = 0, channel = 10, time = 1, duration = 1 / 5\<rparr>])"
    by (simp add: double_electrode_def within_time_def adjacent_def delete_row_def)
  from filters_conserve_events [of ?ts 0] srt
  have "mset (fst (double_electrode ?ts)) + mset (snd (double_electrode ?ts)) = mset ?ts"
    by blast
  with srt run show ?thesis by blast
qed

text \<open>
  On a list that is not time-ordered the Double-Electrode Filter can record one row and
  remove another (\<open>within_time[row2]\<close> is recorded, \<open>touches[row+row2+1]\<close> is removed): the
  counts still add up, the events do not.
\<close>

lemma double_electrode_unordered_input:
  "double_electrode
     [\<lparr>number = 0, channel = 12, time = 1, duration = 1 / 5\<rparr>,
      \<lparr>number = 0, channel = 30, time = 5, duration = 1 / 5\<rparr>,
      \<lparr>number = 0, channel = 10, time = 11 / 10, duration = 1 / 5\<rparr>]
   = ([\<lparr>number = 0, channel = 12, time = 1, duration = 1 / 5\<rparr>],
      [\<lparr>number = 0, channel = 10, time = 11 / 10, duration = 1 / 5\<rparr>,
       \<lparr>number = 0, channel = 10, time = 11 / 10, duration = 1 / 5\<rparr>])"
  by (simp add: double_electrode_def within_time_def adjacent_def delete_row_def)

text \<open>
  Claim C7 as stated fails when two survivors on different channels start at the same time
  (two channels touched in the same tick): the first application returns the events on
  channels 2 and 3 at time 0 in one order, the second application returns them in the other
  order. No event is deleted by the second application.
\<close>

theorem repeated_touches_fixed_point_counterexample:
  "repeated_touches
     [\<lparr>number = 0, channel = 2, time = 0, duration = 1\<rparr>,
      \<lparr>number = 0, channel = 3, time = 0, duration = 1\<rparr>,
      \<lparr>number = 0, channel = 3, time = 1 / 10, duration = 1 / 2\<rparr>,
      \<lparr>number = 0, channel = 2, time = 5, duration = 1\<rparr>] (3 / 20)
   = Some ([\<lparr>number = 0, channel = 2, time = 0, duration = 1\<rparr>,
            \<lparr>number = 0, channel = 3, time = 0, duration = 1\<rparr>,
            \<lparr>number = 0, channel = 2, time = 5, duration = 1\<rparr>],
           [\<lparr>number = 0, channel = 3, time = 1 / 10, duration = 1 / 2\<rparr>])
   \<and> repeated_touches
       [\<lparr>number = 0, channel = 2, time = 0, duration = 1\<rparr>,
        \<lparr>number = 0, channel = 3, time = 0, duration = 1\<rparr>,
        \<lparr>number = 0, channel = 2, time = 5, duration = 1\<rparr>] (3 / 20)
     = Some ([\<lparr>number = 0, channel = 3, time = 0, duration = 1\<rparr>,
              \<lparr>number = 0, channel = 2, time = 0, duration = 1\<rparr>,
              \<lparr>number = 0, channel = 2, time = 5, duration = 1\<rparr>], [])"
  by (simp add: repeated_touches_def repeated_touched_channels_def rt_while.simps)

text \<open>
  Claim C7, amended. For every input list and every window the filter returns, and applying
  it again to its survivors deletes nothing and returns the same events (as a multiset) in
  time order; the survivor list itself is unchanged whenever no two survivors start at the
  same time.
\<close>

theorem repeated_touches_fixed_point:
  "\<exists>s d. repeated_touches ts w = Some (s, d)
     \<and> (\<exists>s'. repeated_touches s w = Some (s', []) \<and> mset s' = mset s
          \<and> sorted (map time s') \<and> (distinct (map time s) \<longrightarrow> s' = s))"
proof -
  from repeated_touches_conserves [of ts w] obtain s d where
    sd: "repeated_touches ts w = Some (s, d)" "sorted (map time s)" "quiet w s" by blast
  from repeated_touches_quiet [OF sd(3)] obtain s' where
    s': "repeated_touches s w = Some (s', [])" "mset s' = mset s" "sorted (map time s')" by blast
  have "distinct (map time s) \<longrightarrow> s' = s"
    using sorted_unique [OF sd(2) s'(3) s'(2) [symmetric]] by blast
  with sd(1) s' show ?thesis by blast
qed

theorem repeated_touches_fixed_point_witness:
  "repeated_touches
     [\<lparr>number = 0, channel = 5, time = 1, duration = 1 / 5\<rparr>,
      \<lparr>number = 0, channel = 5, time = 21 / 20, duration = 1 / 20\<rparr>,
      \<lparr>number = 0, channel = 7, time = 2, duration = 1 / 5\<rparr>] (3 / 20)
   = Some ([\<lparr>number = 0, channel = 5, time = 1, duration = 1 / 5\<rparr>,
            \<lparr>number = 0, channel = 7, time = 2, duration = 1 / 5\<rparr>],
           [\<lparr>number = 0, channel = 5, time = 21 / 20, duration = 1 / 20\<rparr>])
   \<and> distinct (map time
       [\<lparr>number = 0, channel = 5, time = 1, duration = 1 / 5\<rparr>,
        \<lparr>number = 0, channel = 7, time = 2, duration = 1 / 5\<rparr>])
   \<and> repeated_touches
       [\<lparr>number = 0, channel = 5, time = 1, duration = 1 / 5\<rparr>,
        \<lparr>number = 0, channel = 7, time = 2, duration = 1 / 5\<rparr>] (3 / 20)
     = Some ([\<lparr>number = 0, channel = 5, time = 1, duration = 1 / 5\<rparr>,
              \<lparr>number = 0, channel = 7, time = 2, duration = 1 / 5\<rparr>], [])"
proof -
  let ?ts = "[\<lparr>number = 0, channel = 5, time = 1, duration = 1 / 5\<rparr>,
      \<lparr>number = 0, channel = 5, time = 21 / 20, duration = 1 / 20\<rparr>,
      \<lparr>number = 0, channel = 7, time = 2, duration = 1 / 5\<rparr>]"
  let ?s = "[\<lparr>number = 0, channel = 5, time = 1, duration = 1 / 5\<rparr>,
      \<lparr>number = 0, channel = 7, time = 2, duration = 1 / 5\<rparr>]"
  have first: "repeated_touches ?ts (3 / 20)
      = Some (?s, [\<lparr>number = 0, channel = 5, time = 21 / 20, duration = 1 / 20\<rparr>])"
    by (simp add: repeated_touches_def repeated_touched_channels_def rt_while.simps)
  have dist: "distinct (map time ?s)" by simp
  from repeated_touches_fixed_point [of ?ts "3 / 20"] first dist
  have "repeated_touches ?s (3 / 20) = Some (?s, [])" by auto
  with first dist show ?thesis by blast
qed

text \<open>
  Claim C8 (convergence of the Double-Electrode Filter). On every input list the loop ends
  after at most \<open>length ts + 1\<close> scans with the result \<open>double_electrode ts\<close>; it deletes at
  most as many events as the input has; and applied to its own survivors it returns them
  unchanged with no deletion.
\<close>

theorem double_electrode_converges:
  "while_loop_fuel (Suc (length ts)) ts [] = Some (double_electrode ts)
   \<and> length (snd (double_electrode ts)) \<le> length ts
   \<and> double_electrode (fst (double_electrode ts)) = (fst (double_electrode ts), [])"
proof -
  obtain s d where sd: "while_loop ts [] = (s, d)" by (cases "while_loop ts []")
  from while_loop_length [OF sd] have "length d \<le> length ts" by simp
  moreover from while_loop_fixed [OF sd] have "while_loop s [] = (s, [])"
    by (rule while_loop_stable)
  moreover have "while_loop_fuel (Suc (length ts)) ts [] = Some (while_loop ts [])"
    by (rule while_loop_fuel_enough) simp
  ultimately show ?thesis using sd by (simp add: double_electrode_def)
qed

section \<open>Lemmas on the decoder\<close>

lemma int_of_digits_append:
  "int_of_digits (xs @ ys) =
     (case int_of_digits xs of
        Inl e \<Rightarrow> Inl e
      | Inr a \<Rightarrow> (case int_of_digits ys of Inl e \<Rightarrow> Inl e | Inr b \<Rightarrow> Inr (a @ b)))"
  by (induction xs) (auto split: sum.splits)

lemma int_of_digits_zeros:
  "int_of_digits (replicate k CHR ''0'') = Inr (replicate k 0)"
  by (induction k) (simp_all add: int_of_digit_def)

lemma length_bin_digits:
  "n < 2 ^ k \<Longrightarrow> 0 < k \<Longrightarrow> length (bin_digits n) \<le> k"
proof (induction n arbitrary: k rule: bin_digits.induct)
  case (1 n)
  show ?case
  proof (cases "n < 2")
    case True
    with "1.prems" show ?thesis by (subst bin_digits.simps) simp
  next
    case False
    obtain k' where k: "k = Suc k'" using "1.prems"(2) by (cases k) auto
    from False "1.prems"(1) k have k'0: "0 < k'" by (cases k') auto
    from "1.prems"(1) k have "n div 2 < 2 ^ k'" by auto
    from "1.IH" [OF False this k'0] False k show ?thesis
      by (subst bin_digits.simps) simp
  qed
qed

lemma bin_digits_values:
  "\<exists>vs. int_of_digits (bin_digits n) = Inr vs \<and> length vs = length (bin_digits n)
     \<and> (\<forall>b<length vs. rev vs ! b = n div 2 ^ b mod 2) \<and> n < 2 ^ length vs"
proof (induction n rule: bin_digits.induct)
  case (1 n)
  show ?case
  proof (cases "n < 2")
    case True
    then have "n = 0 \<or> n = 1" by auto
    then show ?thesis
      by (subst (1 2) bin_digits.simps) (auto simp: int_of_digit_def)
  next
    case False
    from "1.IH" [OF False] obtain vs where
      vs: "int_of_digits (bin_digits (n div 2)) = Inr vs"
          "length vs = length (bin_digits (n div 2))"
          "\<forall>b<length vs. rev vs ! b = n div 2 div 2 ^ b mod 2"
          "n div 2 < 2 ^ length vs" by blast
    let ?v = "n mod 2"
    have d: "int_of_digits [if n mod 2 = 0 then CHR ''0'' else CHR ''1''] = Inr [?v]"
      by (auto simp: int_of_digit_def)
    have bd: "bin_digits n = bin_digits (n div 2) @ [if n mod 2 = 0 then CHR ''0'' else CHR ''1'']"
      using False by (subst bin_digits.simps) simp
    have 1: "int_of_digits (bin_digits n) = Inr (vs @ [?v])"
      unfolding bd int_of_digits_append vs(1) d by simp
    have 2: "length (vs @ [?v]) = length (bin_digits n)"
      unfolding bd using vs(2) by simp
    have 3: "rev (vs @ [?v]) ! b = n div 2 ^ b mod 2" if "b < length (vs @ [?v])" for b
    proof (cases b)
      case 0
      then show ?thesis by simp
    next
      case (Suc b')
      with that have "b' < length vs" by simp
      with vs(3) have "rev vs ! b' = n div 2 div 2 ^ b' mod 2" by blast
      with Suc show ?thesis by (simp add: div_mult2_eq)
    qed
    have 4: "n < 2 ^ length (vs @ [?v])"
      using vs(4) by auto
    from 1 2 3 4 show ?thesis by blast
  qed
qed

lemma sensor_bits_values:
  assumes "0 \<le> m" "m < 4096"
  shows "sensor_bits m = Inr (map (\<lambda>b. nat m div 2 ^ b mod 2) [0..<12])"
proof -
  let ?n = "nat m"
  from assms have n: "?n < 2 ^ 12" by simp
  from length_bin_digits [OF n] have len: "length (bin_digits ?n) \<le> 12" by simp
  from bin_digits_values [of ?n] obtain vs where
    vs: "int_of_digits (bin_digits ?n) = Inr vs" "length vs = length (bin_digits ?n)"
        "\<forall>b<length vs. rev vs ! b = ?n div 2 ^ b mod 2" "?n < 2 ^ length vs" by blast
  let ?k = "12 - length vs"
  have sb: "sensor_bits m = Inr (rev vs @ replicate ?k 0)"
    using assms(1) vs(1,2)
    by (simp add: sensor_bits_def format_014b_tail_def zero_pad_def int_of_digits_append
        int_of_digits_zeros)
  have "rev vs @ replicate ?k 0 = map (\<lambda>b. ?n div 2 ^ b mod 2) [0..<12]"
  proof (rule nth_equalityI)
    show "length (rev vs @ replicate ?k 0) = length (map (\<lambda>b. ?n div 2 ^ b mod 2) [0..<12])"
      using len vs(2) by simp
  next
    fix b assume "b < length (rev vs @ replicate ?k 0)"
    with len vs(2) have b: "b < 12" by simp
    show "(rev vs @ replicate ?k 0) ! b = map (\<lambda>b. ?n div 2 ^ b mod 2) [0..<12] ! b"
    proof (cases "b < length vs")
      case True
      with vs(3) b show ?thesis by (simp add: nth_append)
    next
      case False
      then have "(2::nat) ^ length vs \<le> 2 ^ b" by (simp add: power_increasing)
      with vs(4) have "?n < 2 ^ b" by (rule less_le_trans)
      then have "?n div 2 ^ b = 0" by (rule div_less)
      with False b len vs(2) show ?thesis by (simp add: nth_append)
    qed
  qed
  with sb show ?thesis by simp
qed

lemma touch_list_values:
  "\<forall>m\<in>set masks. 0 \<le> m \<and> m < 4096 \<Longrightarrow>
     touch_list masks = Inr (concat (map (\<lambda>m. map (\<lambda>b. nat m div 2 ^ b mod 2) [0..<12]) masks))"
  by (induction masks) (simp_all add: sensor_bits_values)

lemma concat_nth_block:
  "\<forall>x\<in>set xs. length (f x) = k \<Longrightarrow> s < length xs \<Longrightarrow> b < k
     \<Longrightarrow> concat (map f xs) ! (k * s + b) = f (xs ! s) ! b"
proof (induction xs arbitrary: s)
  case Nil
  then show ?case by simp
next
  case (Cons x xs)
  show ?case
  proof (cases s)
    case 0
    with Cons.prems show ?thesis by (simp add: nth_append)
  next
    case (Suc s')
    with Cons.prems have "concat (map f xs) ! (k * s' + b) = f (xs ! s') ! b"
      by (intro Cons.IH) simp_all
    moreover have "k * s + b = k + (k * s' + b)" using Suc by simp
    ultimately show ?thesis using Cons.prems(1) Suc by (simp add: nth_append)
  qed
qed

lemma length_concat_blocks:
  "\<forall>x\<in>set xs. length (f x) = k \<Longrightarrow> length (concat (map f xs)) = k * length xs"
  by (induction xs) simp_all

lemma bit_value:
  assumes "0 \<le> (m::int)"
  shows "nat m div 2 ^ b mod 2 = (if bit m b then 1 else 0)"
proof -
  from assms have "bit m b \<longleftrightarrow> bit (nat m) b" by (simp add: bit_nat_iff)
  also have "\<dots> \<longleftrightarrow> odd (nat m div 2 ^ b)" by (simp add: bit_iff_odd)
  finally show ?thesis by (simp add: mod2_eq_if)
qed

lemma decode_row_values:
  assumes "length masks = n" "\<forall>m\<in>set masks. 0 \<le> m \<and> m < 4096"
  shows "\<exists>bits. decode_row n (t, masks) = Inr (t, bits) \<and> length bits = 12 * n
     \<and> (\<forall>s<n. \<forall>b<12. bits ! (12 * s + b) = (if bit (masks ! s) b then 1 else 0))"
proof -
  let ?f = "\<lambda>m. map (\<lambda>b. nat m div 2 ^ b mod 2) [0..<12]"
  let ?bits = "concat (map ?f masks)"
  have blocks: "\<forall>m\<in>set masks. length (?f m) = 12" by simp
  from length_concat_blocks [OF blocks] assms(1) have len: "length ?bits = 12 * n" by simp
  have "decode_row n (t, masks) = Inr (t, ?bits)"
    using assms(1) len by (simp add: decode_row_def touch_list_values [OF assms(2)])
  moreover have "?bits ! (12 * s + b) = (if bit (masks ! s) b then 1 else 0)"
    if "s < n" "b < 12" for s b
  proof -
    from that assms(1) have s: "s < length masks" by simp
    with assms(2) have "0 \<le> masks ! s" by simp
    from concat_nth_block [OF blocks s that(2)] that(2) bit_value [OF this, of b]
    show ?thesis by simp
  qed
  ultimately show ?thesis using len by blast
qed

lemma construct_sensor_bounds:
  "set xs \<subseteq> {0, 1} \<Longrightarrow> 0 \<le> construct_sensor xs \<and> construct_sensor xs < 2 ^ length xs"
  by (induction xs) auto

lemma construct_sensor_nth:
  "set xs \<subseteq> {0, 1} \<Longrightarrow> b < length xs \<Longrightarrow> construct_sensor xs div 2 ^ b mod 2 = int (xs ! b)"
proof (induction xs arbitrary: b)
  case Nil
  then show ?case by simp
next
  case (Cons x xs)
  from Cons.prems(1) have x: "x = 0 \<or> x = 1" by simp
  show ?case
  proof (cases b)
    case 0
    with x show ?thesis by auto
  next
    case (Suc b')
    have "(int x + 2 * construct_sensor xs) div 2 ^ Suc b'
        = (int x + 2 * construct_sensor xs) div 2 div 2 ^ b'"
      by (simp add: zdiv_zmult2_eq)
    also have "(int x + 2 * construct_sensor xs) div 2 = construct_sensor xs"
      using x by auto
    finally show ?thesis using Cons.IH [of b'] Cons.prems Suc by simp
  qed
qed

lemma sensor_bits_construct:
  assumes "length xs = 12" "set xs \<subseteq> {0, 1}"
  shows "sensor_bits (construct_sensor xs) = Inr xs"
proof -
  let ?m = "construct_sensor xs"
  from construct_sensor_bounds [OF assms(2)] assms(1) have m: "0 \<le> ?m" "?m < 4096" by simp_all
  have "map (\<lambda>b. nat ?m div 2 ^ b mod 2) [0..<12] = xs"
  proof (rule nth_equalityI)
    show "length (map (\<lambda>b. nat ?m div 2 ^ b mod 2) [0..<12]) = length xs"
      using assms(1) by simp
  next
    fix b assume "b < length (map (\<lambda>b. nat ?m div 2 ^ b mod 2) [0..<12])"
    then have b: "b < 12" by simp
    have "int (nat ?m div 2 ^ b mod 2) = ?m div 2 ^ b mod 2"
      using m(1) by (simp add: zdiv_int zmod_int)
    also have "\<dots> = int (xs ! b)"
      using construct_sensor_nth [OF assms(2)] b assms(1) by simp
    finally show "map (\<lambda>b. nat ?m div 2 ^ b mod 2) [0..<12] ! b = xs ! b"
      using b by simp
  qed
  with sensor_bits_values [OF m] show ?thesis by simp
qed

lemma touch_list_construct:
  "length bits = 12 * n \<Longrightarrow> set bits \<subseteq> {0, 1}
     \<Longrightarrow> touch_list (construct_row n bits) = Inr bits \<and> length (construct_row n bits) = n"
proof (induction n arbitrary: bits)
  case 0
  then show ?case by simp
next
  case (Suc n)
  from Suc.prems have t: "length (take 12 bits) = 12" "set (take 12 bits) \<subseteq> {0, 1}"
    by (auto dest: in_set_takeD)
  from Suc.prems have d: "length (drop 12 bits) = 12 * n" "set (drop 12 bits) \<subseteq> {0, 1}"
    by (auto dest: in_set_dropD)
  from sensor_bits_construct [OF t] Suc.IH [OF d] show ?case by simp
qed

lemma decode_construct:
  "\<forall>r\<in>set matrix. length (snd r) = 12 * n \<and> set (snd r) \<subseteq> {0, 1}
     \<Longrightarrow> decode n (map (\<lambda>r. (fst r, construct_row n (snd r))) matrix) = Inr matrix"
proof (induction matrix)
  case Nil
  then show ?case by simp
next
  case (Cons r matrix)
  from Cons.prems have "length (snd r) = 12 * n" "set (snd r) \<subseteq> {0, 1}" by simp_all
  from touch_list_construct [OF this]
  have "decode_row n (fst r, construct_row n (snd r)) = Inr r"
    using \<open>length (snd r) = 12 * n\<close> by (simp add: decode_row_def)
  with Cons show ?case by simp
qed

section \<open>Lemmas on the extraction loop and the batch\<close>

lemma int_of_digits_bits:
  "int_of_digits ds = Inr vs \<Longrightarrow> set vs \<subseteq> {0, 1}"
  by (induction ds arbitrary: vs) (auto simp: int_of_digit_def split: sum.splits if_splits)

lemma sensor_bits_bits: "sensor_bits v = Inr bits \<Longrightarrow> set bits \<subseteq> {0, 1}"
  by (auto simp: sensor_bits_def split: sum.splits dest!: int_of_digits_bits)

lemma touch_list_bits: "touch_list vs = Inr bits \<Longrightarrow> set bits \<subseteq> {0, 1}"
proof (induction vs arbitrary: bits)
  case Nil
  then show ?case by simp
next
  case (Cons v vs)
  then show ?case
    by (auto split: sum.splits dest!: sensor_bits_bits)
qed

lemma decode_row_shape:
  "decode_row n r = Inr s \<Longrightarrow> length (snd s) = 12 * n \<and> set (snd s) \<subseteq> {0, 1} \<and> fst s = fst r"
  by (auto simp: decode_row_def split: if_splits sum.splits dest!: touch_list_bits)

lemma decode_shape:
  "decode n data = Inr newdata \<Longrightarrow>
     length newdata = length data
     \<and> (\<forall>s\<in>set newdata. length (snd s) = 12 * n \<and> set (snd s) \<subseteq> {0, 1})"
proof (induction data arbitrary: newdata)
  case Nil
  then show ?case by simp
next
  case (Cons r data)
  from Cons.prems obtain s ss where
    s: "decode_row n r = Inr s" "decode n data = Inr ss" "newdata = s # ss"
    by (auto split: sum.splits)
  from decode_row_shape [OF s(1)] Cons.IH [OF s(2)] s(3) show ?case by simp
qed

lemma release_temp:
  "st_temp st ch \<noteq> None \<Longrightarrow>
     \<exists>st'. release a filename ch released st = Inr st' \<and> st_temp st' = (st_temp st)(ch := None)"
  by (auto simp: release_def Let_def)

lemma cell_step:
  assumes "snd prev ! ch \<in> {0, 1}" "snd cur ! ch \<in> {0, 1}"
    "ch \<in> dom (st_temp st) \<longleftrightarrow> snd prev ! ch = 1"
  shows "\<exists>st'. cell a filename start row prev cur ch st = Inr st'
     \<and> (ch \<in> dom (st_temp st') \<longleftrightarrow> snd cur ! ch = 1)
     \<and> (\<forall>c. c \<noteq> ch \<longrightarrow> st_temp st' c = st_temp st c)"
proof (cases "snd cur ! ch = 0 \<and> snd prev ! ch = 1")
  case True
  with assms(3) have "st_temp st ch \<noteq> None" by auto
  from release_temp [OF this, of a filename "fst cur - start"] obtain st' where
    "release a filename ch (fst cur - start) st = Inr st'"
    "st_temp st' = (st_temp st)(ch := None)" by blast
  with True show ?thesis by (simp add: cell_def)
next
  case False
  with assms show ?thesis by (auto simp: cell_def)
qed

lemma foreach_cells:
  assumes "distinct chs"
    "\<forall>ch\<in>set chs. snd prev ! ch \<in> {0, 1} \<and> snd cur ! ch \<in> {0, 1}
        \<and> (ch \<in> dom (st_temp st) \<longleftrightarrow> snd prev ! ch = 1)"
  shows "\<exists>st'. foreach (cell a filename start row prev cur) chs st = Inr st'
     \<and> (\<forall>ch\<in>set chs. ch \<in> dom (st_temp st') \<longleftrightarrow> snd cur ! ch = 1)
     \<and> (\<forall>c. c \<notin> set chs \<longrightarrow> st_temp st' c = st_temp st c)"
  using assms
proof (induction chs arbitrary: st)
  case Nil
  then show ?case by simp
next
  case (Cons ch chs)
  from Cons.prems(2) have "snd prev ! ch \<in> {0, 1}" "snd cur ! ch \<in> {0, 1}"
    "ch \<in> dom (st_temp st) \<longleftrightarrow> snd prev ! ch = 1" by simp_all
  from cell_step [OF this, of a filename start row] obtain st1 where
    st1: "cell a filename start row prev cur ch st = Inr st1"
         "ch \<in> dom (st_temp st1) \<longleftrightarrow> snd cur ! ch = 1"
         "\<forall>c. c \<noteq> ch \<longrightarrow> st_temp st1 c = st_temp st c" by blast
  from Cons.prems(1) have ch: "ch \<notin> set chs" and d: "distinct chs" by simp_all
  have "\<forall>c\<in>set chs. snd prev ! c \<in> {0, 1} \<and> snd cur ! c \<in> {0, 1}
        \<and> (c \<in> dom (st_temp st1) \<longleftrightarrow> snd prev ! c = 1)"
  proof
    fix c assume c: "c \<in> set chs"
    with ch have "c \<noteq> ch" by auto
    with st1(3) have "st_temp st1 c = st_temp st c" by simp
    then have "c \<in> dom (st_temp st1) \<longleftrightarrow> c \<in> dom (st_temp st)" by (simp add: dom_def)
    with Cons.prems(2) c show "snd prev ! c \<in> {0, 1} \<and> snd cur ! c \<in> {0, 1}
        \<and> (c \<in> dom (st_temp st1) \<longleftrightarrow> snd prev ! c = 1)" by simp
  qed
  from Cons.IH [OF d this] obtain st' where
    st': "foreach (cell a filename start row prev cur) chs st1 = Inr st'"
         "\<forall>c\<in>set chs. c \<in> dom (st_temp st') \<longleftrightarrow> snd cur ! c = 1"
         "\<forall>c. c \<notin> set chs \<longrightarrow> st_temp st' c = st_temp st1 c" by blast
  have 1: "foreach (cell a filename start row prev cur) (ch # chs) st = Inr st'"
    using st1(1) st'(1) by simp
  have 2: "\<forall>c\<in>set (ch # chs). c \<in> dom (st_temp st') \<longleftrightarrow> snd cur ! c = 1"
    using st'(2,3) ch st1(2) by (auto simp: dom_def)
  have 3: "\<forall>c. c \<notin> set (ch # chs) \<longrightarrow> st_temp st' c = st_temp st c"
    using st'(3) st1(3) by simp
  from 1 2 3 show ?case by blast
qed

lemma row_loop_open:
  assumes "\<forall>r\<in>set (prev # rest). length (snd r) = n \<and> set (snd r) \<subseteq> {0, 1}"
    "open_matches n st prev"
  shows "\<exists>st'. row_loop a filename start n row prev rest st = Inr st'
     \<and> open_matches n st' (last (prev # rest))"
  using assms
proof (induction rest arbitrary: prev st row)
  case Nil
  then show ?case by simp
next
  case (Cons cur rest)
  have "\<forall>ch\<in>set [0..<n]. snd prev ! ch \<in> {0, 1} \<and> snd cur ! ch \<in> {0, 1}
        \<and> (ch \<in> dom (st_temp st) \<longleftrightarrow> snd prev ! ch = 1)"
  proof
    fix ch assume "ch \<in> set [0..<n]"
    then have ch: "ch < n" by simp
    with Cons.prems(1) have "snd prev ! ch \<in> set (snd prev)" "snd cur ! ch \<in> set (snd cur)"
      by simp_all
    moreover from Cons.prems(1) have "set (snd prev) \<subseteq> {0, 1}" "set (snd cur) \<subseteq> {0, 1}"
      by simp_all
    ultimately have "snd prev ! ch \<in> {0, 1}" "snd cur ! ch \<in> {0, 1}" by blast+
    moreover from Cons.prems(2) ch have "ch \<in> dom (st_temp st) \<longleftrightarrow> snd prev ! ch = 1"
      by (simp add: open_matches_def)
    ultimately show "snd prev ! ch \<in> {0, 1} \<and> snd cur ! ch \<in> {0, 1}
        \<and> (ch \<in> dom (st_temp st) \<longleftrightarrow> snd prev ! ch = 1)" by blast
  qed
  from foreach_cells [OF _ this, of a filename start row] obtain st1 where
    st1: "foreach (cell a filename start row prev cur) [0..<n] st = Inr st1"
         "\<forall>ch\<in>set [0..<n]. ch \<in> dom (st_temp st1) \<longleftrightarrow> snd cur ! ch = 1" by auto
  from st1(2) have "open_matches n st1 cur" by (simp add: open_matches_def)
  moreover from Cons.prems(1)
  have "\<forall>r\<in>set (cur # rest). length (snd r) = n \<and> set (snd r) \<subseteq> {0, 1}" by simp
  ultimately obtain st' where
    "row_loop a filename start n (Suc row) cur rest st1 = Inr st'"
    "open_matches n st' (last (cur # rest))"
    using Cons.IH [of cur st1 "Suc row"] by blast
  with st1(1) show ?case by simp
qed

lemma finish_returns: "\<exists>out. finish a filename collected lg = Inr out"
proof (cases "no_filter a")
  case True
  then show ?thesis by (simp add: finish_def)
next
  case False
  from repeated_touches_conserves [of "sort_key time collected" "150 / 1000"]
  obtain s d where "repeated_touches (sort_key time collected) (150 / 1000) = Some (s, d)"
    by blast
  with False show ?thesis by (simp add: finish_def Let_def split: prod.splits)
qed

lemma sum_list_zero: "sum_list (xs::nat list) = 0 \<Longrightarrow> \<forall>x\<in>set xs. x = 0"
  by (induction xs) auto

lemma process_file_scan:
  assumes "1 < length data" "decode (length (snd (hd data))) data = Inr newdata"
    "sum_list (snd (hd newdata)) = 0" "snd (hd data) \<noteq> []"
  shows "\<exists>st. row_loop a filename (fst (hd newdata)) (12 * length (snd (hd data))) 1
                (hd newdata) (tl newdata)
                \<lparr>st_touches = [], st_temp = Map.empty, st_log = []\<rparr> = Inr st
     \<and> open_matches (12 * length (snd (hd data))) st (last newdata)
     \<and> process_file a filename data = finish a filename (st_touches st) (st_log st)"
proof -
  let ?n = "12 * length (snd (hd data))"
  let ?init = "\<lparr>st_touches = [], st_temp = Map.empty, st_log = []\<rparr>"
  from decode_shape [OF assms(2)] have
    shape: "length newdata = length data"
      "\<forall>s\<in>set newdata. length (snd s) = ?n \<and> set (snd s) \<subseteq> {0, 1}" by simp_all
  from shape(1) assms(1) have ne: "newdata \<noteq> []" by auto
  then have split: "hd newdata # tl newdata = newdata" by simp
  from shape(2) split have
    rows: "\<forall>r\<in>set (hd newdata # tl newdata). length (snd r) = ?n \<and> set (snd r) \<subseteq> {0, 1}"
    by simp
  from ne shape(2) have len0: "length (snd (hd newdata)) = ?n" by simp
  have "snd (hd newdata) ! ch \<noteq> 1" if "ch < ?n" for ch
  proof -
    from that len0 have "snd (hd newdata) ! ch \<in> set (snd (hd newdata))" by simp
    with sum_list_zero [OF assms(3)] show ?thesis by auto
  qed
  then have "open_matches ?n ?init (hd newdata)"
    by (simp add: open_matches_def)
  from row_loop_open [OF rows this, of a filename "fst (hd newdata)" 1] split obtain st where
    st: "row_loop a filename (fst (hd newdata)) ?n 1 (hd newdata) (tl newdata) ?init = Inr st"
        "open_matches ?n st (last newdata)" by auto
  have "process_file a filename data = finish a filename (st_touches st) (st_log st)"
    using assms st(1) by (simp add: process_file_def Let_def mult.commute)
  with st show ?thesis by blast
qed

lemma touch_list_error: "touch_list vs = Inl e \<Longrightarrow> e = ValueError"
proof (induction vs arbitrary: e)
  case Nil
  then show ?case by simp
next
  case (Cons v vs)
  have sb: "sensor_bits v = Inl e' \<Longrightarrow> e' = ValueError" for e'
  proof -
    have "int_of_digits ds = Inl e' \<Longrightarrow> e' = ValueError" for ds
      by (induction ds) (auto simp: int_of_digit_def split: sum.splits if_splits)
    then show "sensor_bits v = Inl e' \<Longrightarrow> e' = ValueError"
      by (auto simp: sensor_bits_def split: sum.splits)
  qed
  from Cons show ?case by (auto split: sum.splits dest: sb)
qed

lemma decode_error: "decode n data = Inl e \<Longrightarrow> e = ValueError"
proof (induction data)
  case Nil
  then show ?case by simp
next
  case (Cons r data)
  have "decode_row n r = Inl e' \<Longrightarrow> e' = ValueError" for e'
    by (auto simp: decode_row_def split: if_splits sum.splits dest: touch_list_error)
  with Cons show ?case by (auto split: sum.splits)
qed

lemma batch_append:
  "batch a (xs @ ys) out lg =
     (case batch a xs out lg of Inl x \<Rightarrow> Inl x | Inr (out', lg') \<Rightarrow> batch a ys out' lg')"
  by (induction xs arbitrary: out lg) (auto split: sum.splits)

section \<open>Claims on the decoder, the extraction loop and the batch\<close>




text \<open>
  Claim C4 (short touches). A touch is completed when the scan finds channel \<open>ch\<close> touched
  in the previous row and untouched in the current one; it started at \<open>t0 = temp[ch]\<close>
  and its duration is \<open>d = (time of the current row - start) - t0\<close>. For \<open>0 < ch < 47\<close>:
  when a threshold \<open>t\<close> was given on the command line and the duration (not negative) is
  below it, the touch is not added to the events and a deletion is logged; when no threshold
  was given and the duration is below 0.1 s, the touch is added and a warning is logged. On
  channels 0 and 47 the touch is added and nothing is logged, whatever its duration.
\<close>

theorem short_touch_rule:
  assumes "snd prev ! ch = 1" "snd cur ! ch = 0" "st_temp st ch = Some t0"
    "d = fst cur - start - t0"
  shows "(0 < ch \<and> ch < 47 \<and> threshold_arg a = Some t \<and> 0 \<le> d \<and> d < t \<longrightarrow>
      cell a filename start row prev cur ch st =
        Inr \<lparr>st_touches = st_touches st, st_temp = (st_temp st)(ch := None),
             st_log = st_log st @ [Delete filename (int ch) (quantize t0) (quantize d) t]\<rparr>)
   \<and> (0 < ch \<and> ch < 47 \<and> threshold_arg a = None \<and> d < 1 / 10 \<longrightarrow>
      cell a filename start row prev cur ch st =
        Inr \<lparr>st_touches = st_touches st @
               [\<lparr>number = 0, channel = int ch, time = t0, duration = d\<rparr>],
             st_temp = (st_temp st)(ch := None),
             st_log = st_log st @ [Warning filename (int ch) (quantize t0) (quantize d)]\<rparr>)
   \<and> (ch = 0 \<or> ch = 47 \<longrightarrow>
      cell a filename start row prev cur ch st =
        Inr \<lparr>st_touches = st_touches st @
               [\<lparr>number = 0, channel = int ch, time = t0, duration = d\<rparr>],
             st_temp = (st_temp st)(ch := None), st_log = st_log st\<rparr>)"
proof -
  from assms(1,2) have c: "cell a filename start row prev cur ch st
      = release a filename ch (fst cur - start) st"
    by (simp add: cell_def)
  show ?thesis
    unfolding c using assms(3,4)
    by (auto simp: release_def Let_def threshold_def threshold_given_def start_ch_def
        finish_ch_def)
qed

theorem short_touch_rule_witness:
  "cell \<lparr>threshold_arg = Some (1 / 10), no_filter = False\<rparr> ''m1_001_raw.txt'' 0 2
       (1, [0::nat, 0, 0, 0, 0, 1, 0, 0, 0, 0, 0, 0]) (21 / 20, [0::nat, 0, 0, 0, 0, 0, 0, 0, 0, 0, 0, 0]) 5
       \<lparr>st_touches = [], st_temp = [5 \<mapsto> 1], st_log = []\<rparr>
     = Inr \<lparr>st_touches = [], st_temp = [5 \<mapsto> 1](5 := None),
            st_log = [Delete ''m1_001_raw.txt'' 5 (quantize 1) (quantize (1 / 20)) (1 / 10)]\<rparr>
   \<and> cell \<lparr>threshold_arg = None, no_filter = False\<rparr> ''m1_001_raw.txt'' 0 2
       (1, [0::nat, 0, 0, 0, 0, 1, 0, 0, 0, 0, 0, 0]) (21 / 20, [0::nat, 0, 0, 0, 0, 0, 0, 0, 0, 0, 0, 0]) 5
       \<lparr>st_touches = [], st_temp = [5 \<mapsto> 1], st_log = []\<rparr>
     = Inr \<lparr>st_touches = [\<lparr>number = 0, channel = 5, time = 1, duration = 1 / 20\<rparr>],
            st_temp = [5 \<mapsto> 1](5 := None),
            st_log = [Warning ''m1_001_raw.txt'' 5 (quantize 1) (quantize (1 / 20))]\<rparr>
   \<and> cell \<lparr>threshold_arg = Some (1 / 10), no_filter = False\<rparr> ''m1_001_raw.txt'' 0 2
       (1, [1::nat, 0, 0, 0, 0, 0, 0, 0, 0, 0, 0, 0]) (21 / 20, [0::nat, 0, 0, 0, 0, 0, 0, 0, 0, 0, 0, 0]) 0
       \<lparr>st_touches = [], st_temp = [0 \<mapsto> 1], st_log = []\<rparr>
     = Inr \<lparr>st_touches = [\<lparr>number = 0, channel = 0, time = 1, duration = 1 / 20\<rparr>],
            st_temp = [0 \<mapsto> 1](0 := None), st_log = []\<rparr>"
proof -
  let ?prev = "(1::rat, [0::nat, 0, 0, 0, 0, 1, 0, 0, 0, 0, 0, 0])"
  let ?prev' = "(1::rat, [1::nat, 0, 0, 0, 0, 0, 0, 0, 0, 0, 0, 0])"
  let ?cur = "(21 / 20 :: rat, [0::nat, 0, 0, 0, 0, 0, 0, 0, 0, 0, 0, 0])"
  let ?st = "\<lparr>st_touches = [], st_temp = [5 \<mapsto> (1::rat)], st_log = []\<rparr>"
  let ?st' = "\<lparr>st_touches = [], st_temp = [0 \<mapsto> (1::rat)], st_log = []\<rparr>"
  have h: "snd ?prev ! 5 = 1" "snd ?cur ! 5 = 0" "st_temp ?st 5 = Some 1"
    "(1 / 20 :: rat) = fst ?cur - 0 - 1" by simp_all
  have h': "snd ?prev' ! 0 = 1" "snd ?cur ! 0 = 0" "st_temp ?st' 0 = Some 1"
    "(1 / 20 :: rat) = fst ?cur - 0 - 1" by simp_all
  have 1: "(0::nat) < 5 \<and> (5::nat) < 47 \<and> threshold_arg \<lparr>threshold_arg = Some (1 / 10), no_filter = False\<rparr> = Some (1 / 10)
      \<and> (0::rat) \<le> 1 / 20 \<and> (1 / 20 :: rat) < 1 / 10" by simp
  have 2: "(0::nat) < 5 \<and> (5::nat) < 47 \<and> threshold_arg \<lparr>threshold_arg = None, no_filter = False\<rparr> = None
      \<and> (1 / 20 :: rat) < 1 / 10" by simp
  from 1 short_touch_rule [OF h, of "\<lparr>threshold_arg = Some (1 / 10), no_filter = False\<rparr>" "1 / 10" "''m1_001_raw.txt''" 2]
  have a: "cell \<lparr>threshold_arg = Some (1 / 10), no_filter = False\<rparr> ''m1_001_raw.txt'' 0 2 ?prev ?cur 5 ?st
     = Inr \<lparr>st_touches = st_touches ?st, st_temp = (st_temp ?st)(5 := None),
            st_log = st_log ?st @
              [Delete ''m1_001_raw.txt'' (int 5) (quantize 1) (quantize (1 / 20)) (1 / 10)]\<rparr>"
    by blast
  from 2 short_touch_rule [OF h, of "\<lparr>threshold_arg = None, no_filter = False\<rparr>" _ "''m1_001_raw.txt''" 2]
  have b: "cell \<lparr>threshold_arg = None, no_filter = False\<rparr> ''m1_001_raw.txt'' 0 2 ?prev ?cur 5 ?st
     = Inr \<lparr>st_touches = st_touches ?st @
              [\<lparr>number = 0, channel = int 5, time = 1, duration = 1 / 20\<rparr>],
            st_temp = (st_temp ?st)(5 := None),
            st_log = st_log ?st @
              [Warning ''m1_001_raw.txt'' (int 5) (quantize 1) (quantize (1 / 20))]\<rparr>"
    by blast
  from short_touch_rule [OF h', of "\<lparr>threshold_arg = Some (1 / 10), no_filter = False\<rparr>" _ "''m1_001_raw.txt''" 2]
  have c: "cell \<lparr>threshold_arg = Some (1 / 10), no_filter = False\<rparr> ''m1_001_raw.txt'' 0 2 ?prev' ?cur 0 ?st'
     = Inr \<lparr>st_touches = st_touches ?st' @
              [\<lparr>number = 0, channel = int 0, time = 1, duration = 1 / 20\<rparr>],
            st_temp = (st_temp ?st')(0 := None), st_log = st_log ?st'\<rparr>"
    by blast
  from a b c show ?thesis by simp
qed

text \<open>
  Claim C5 (bit-exact decoding and round trip). For a row of \<open>n\<close> sensor masks, each a
  12-bit integer, the decoder returns \<open>12 * n\<close> entries, and the entry of channel
  \<open>12 * s + b\<close> is 1 exactly when bit \<open>b\<close> of the mask of sensor \<open>s\<close> is set. Decoding
  the raw table constructed from a channel/tick matrix of zeros and ones gives back the
  matrix.
\<close>

theorem decode_bit_exact:
  "(length masks = n \<and> (\<forall>m\<in>set masks. 0 \<le> m \<and> m < 4096) \<longrightarrow>
      (\<exists>bits. decode_row n (t, masks) = Inr (t, bits) \<and> length bits = 12 * n
         \<and> (\<forall>s<n. \<forall>b<12. bits ! (12 * s + b) = (if bit (masks ! s) b then 1 else 0))))
   \<and> ((\<forall>r\<in>set matrix. length (snd r) = 12 * n \<and> set (snd r) \<subseteq> {0, 1}) \<longrightarrow>
        decode n (map (\<lambda>r. (fst r, construct_row n (snd r))) matrix) = Inr matrix)"
  using decode_row_values [of masks n t] decode_construct [of matrix n] by blast

theorem decode_bit_exact_witness:
  "length [5::int, 2048] = 2
   \<and> (0::int) \<le> 5 \<and> (5::int) < 4096 \<and> (0::int) \<le> 2048 \<and> (2048::int) < 4096
   \<and> (\<exists>bits. decode_row 2 (0, [5, 2048]) = Inr (0, bits) \<and> length bits = 12 * 2
        \<and> bits ! (12 * 0 + 2) = 1 \<and> bits ! (12 * 1 + 11) = 1 \<and> bits ! (12 * 1 + 0) = 0)
   \<and> length [1::nat, 0, 0, 0, 0, 0, 0, 0, 0, 0, 0, 0] = 12 * 1 \<and> set [1::nat, 0, 0, 0, 0, 0, 0, 0, 0, 0, 0, 0] \<subseteq> {0, 1}
   \<and> length [0::nat, 0, 0, 0, 0, 0, 0, 0, 0, 0, 0, 0] = 12 * 1 \<and> set [0::nat, 0, 0, 0, 0, 0, 0, 0, 0, 0, 0, 0] \<subseteq> {0, 1}
   \<and> decode 1 (map (\<lambda>r. (fst r, construct_row 1 (snd r))) [(0::rat, [1::nat, 0, 0, 0, 0, 0, 0, 0, 0, 0, 0, 0]), (1, [0::nat, 0, 0, 0, 0, 0, 0, 0, 0, 0, 0, 0])])
       = Inr [(0, [1::nat, 0, 0, 0, 0, 0, 0, 0, 0, 0, 0, 0]), (1, [0::nat, 0, 0, 0, 0, 0, 0, 0, 0, 0, 0, 0])]"
proof -
  let ?matrix = "[(0::rat, [1::nat, 0, 0, 0, 0, 0, 0, 0, 0, 0, 0, 0]), (1, [0::nat, 0, 0, 0, 0, 0, 0, 0, 0, 0, 0, 0])]"
  have h1: "length [5::int, 2048] = 2 \<and> (\<forall>m\<in>set [5::int, 2048]. 0 \<le> m \<and> m < 4096)"
    by simp
  have h2: "\<forall>r\<in>set ?matrix. length (snd r) = 12 * 1 \<and> set (snd r) \<subseteq> {0, 1}"
    by simp
  from h2 decode_bit_exact [of "[]" 1 0 ?matrix]
  have c2: "decode 1 (map (\<lambda>r. (fst r, construct_row 1 (snd r))) ?matrix) = Inr ?matrix"
    by blast
  from h1 decode_bit_exact [of "[5, 2048]" 2 0 "[]"] obtain bits where
    bits: "decode_row 2 (0, [5, 2048]) = Inr (0, bits)" "length bits = 12 * 2"
      "\<forall>s<2. \<forall>b<12. bits ! (12 * s + b) = (if bit ([5::int, 2048] ! s) b then 1 else 0)"
    by blast
  have "bits ! (12 * 0 + 2) = 1" "bits ! (12 * 1 + 11) = 1" "bits ! (12 * 1 + 0) = 0"
    using bits(3) [rule_format, of 0 2] bits(3) [rule_format, of 1 11]
      bits(3) [rule_format, of 1 0]
    by (simp_all add: bit_iff_odd)
  with bits(1,2) c2 show ?thesis by simp
qed

text \<open>
  Claim C9 as stated fails: a batch of two files whose first file has a single row. The run
  stops at the first file with the error; the second file, which is processed when it is
  given alone, is not processed.
\<close>

theorem batch_fatal_error_counterexample:
  "batch \<lparr>threshold_arg = None, no_filter = False\<rparr>
     [(''m1_001_raw.txt'', [(0, [0, 0, 0, 0])]),
      (''m1_002_raw.txt'', [(0, [0, 0, 0, 0]), (1, [0, 0, 0, 2048]), (2, [0, 0, 0, 0])])] [] []
   = Inl (''m1_001_raw.txt'', NoTouchesDetected, [], [])
   \<and> batch \<lparr>threshold_arg = None, no_filter = False\<rparr>
     [(''m1_002_raw.txt'', [(0, [0, 0, 0, 0]), (1, [0, 0, 0, 2048]), (2, [0, 0, 0, 0])])] [] []
   = Inr ([(''m1_002_raw.txt'', [\<lparr>number = 1, channel = 47, time = 1, duration = 1\<rparr>])], [])"
  by code_simp

text \<open>
  Claim C9, amended. A raw table with at most one row, and a decoded table (of more than one
  row and at least one sensor) whose first row has a touched bit, stop the processing of the file with an error that names the cause.
  When a file of a batch stops with an error, the whole run stops there: the result names
  the file and the cause and holds what the files before it produced; the files after it
  are not processed, whatever they are.
\<close>

theorem batch_stops_at_first_error:
  "(length data \<le> 1 \<longrightarrow> process_file a filename data = Inl NoTouchesDetected)
   \<and> (1 < length data \<and> snd (hd data) \<noteq> []
        \<and> decode (length (snd (hd data))) data = Inr newdata
        \<and> sum_list (snd (hd newdata)) \<noteq> 0 \<longrightarrow>
        process_file a filename data = Inl FirstRowTouched)
   \<and> (batch a before out lg = Inr (out', lg') \<and> process_file a filename data = Inl e \<longrightarrow>
        batch a (before @ (filename, data) # after) out lg = Inl (filename, e, out', lg'))"
  by (auto simp: process_file_def Let_def batch_append)

theorem batch_stops_at_first_error_witness:
  "length [(0::rat, [0::int])] \<le> 1
   \<and> 1 < length [(0::rat, [1::int]), (1, [0])]
   \<and> snd (hd [(0::rat, [1::int]), (1, [0])]) \<noteq> []
   \<and> decode (length (snd (hd [(0::rat, [1::int]), (1, [0])]))) [(0, [1]), (1, [0])]
       = Inr [(0, [1::nat, 0, 0, 0, 0, 0, 0, 0, 0, 0, 0, 0]), (1, [0::nat, 0, 0, 0, 0, 0, 0, 0, 0, 0, 0, 0])]
   \<and> sum_list (snd (hd [(0::rat, [1::nat, 0, 0, 0, 0, 0, 0, 0, 0, 0, 0, 0]), (1, [0::nat, 0, 0, 0, 0, 0, 0, 0, 0, 0, 0, 0])])) \<noteq> 0
   \<and> process_file \<lparr>threshold_arg = None, no_filter = False\<rparr> ''m1_002_raw.txt'' [(0, [1]), (1, [0])] = Inl FirstRowTouched
   \<and> batch \<lparr>threshold_arg = None, no_filter = False\<rparr> [(''m1_001_raw.txt'', [(0, [0]), (1, [1]), (2, [0])])] [] []
       = Inr ([(''m1_001_raw.txt'', [\<lparr>number = 1, channel = 0, time = 1, duration = 1\<rparr>])],
              [FirstTouch ''m1_001_raw.txt'' 0])
   \<and> process_file \<lparr>threshold_arg = None, no_filter = False\<rparr> ''m1_002_raw.txt'' [(0, [0])] = Inl NoTouchesDetected
   \<and> batch \<lparr>threshold_arg = None, no_filter = False\<rparr>
       ([(''m1_001_raw.txt'', [(0, [0]), (1, [1]), (2, [0])])]
         @ (''m1_002_raw.txt'', [(0, [0])])
         # [(''m1_003_raw.txt'', [(0, [0]), (1, [1]), (2, [0])])]) [] []
       = Inl (''m1_002_raw.txt'', NoTouchesDetected,
              [(''m1_001_raw.txt'', [\<lparr>number = 1, channel = 0, time = 1, duration = 1\<rparr>])],
              [FirstTouch ''m1_001_raw.txt'' 0])"
proof -
  let ?good = "[(0::rat, [0::int]), (1, [1]), (2, [0])]"
  let ?one = "[(0::rat, [0::int])]"
  let ?touched = "[(0::rat, [1::int]), (1, [0])]"
  let ?decoded = "[(0::rat, [1::nat, 0, 0, 0, 0, 0, 0, 0, 0, 0, 0, 0]), (1, [0::nat, 0, 0, 0, 0, 0, 0, 0, 0, 0, 0, 0])]"
  let ?out = "[(''m1_001_raw.txt'', [\<lparr>number = 1, channel = 0, time = 1, duration = 1\<rparr>])]"
  have h1: "length ?one \<le> 1" by simp
  have h2: "1 < length ?touched \<and> snd (hd ?touched) \<noteq> []
      \<and> decode (length (snd (hd ?touched))) ?touched = Inr ?decoded
      \<and> sum_list (snd (hd ?decoded)) \<noteq> 0" by code_simp
  have h3: "batch \<lparr>threshold_arg = None, no_filter = False\<rparr> [(''m1_001_raw.txt'', ?good)] [] []
      = Inr (?out, [FirstTouch ''m1_001_raw.txt'' 0])" by code_simp
  from h1 batch_stops_at_first_error [of ?one "\<lparr>threshold_arg = None, no_filter = False\<rparr>" "''m1_002_raw.txt''"]
  have c1: "process_file \<lparr>threshold_arg = None, no_filter = False\<rparr> ''m1_002_raw.txt'' ?one = Inl NoTouchesDetected" by blast
  from h2 batch_stops_at_first_error [of ?touched "\<lparr>threshold_arg = None, no_filter = False\<rparr>" "''m1_002_raw.txt''" ?decoded]
  have c2: "process_file \<lparr>threshold_arg = None, no_filter = False\<rparr> ''m1_002_raw.txt'' ?touched = Inl FirstRowTouched" by blast
  from h3 c1 batch_stops_at_first_error [of ?one "\<lparr>threshold_arg = None, no_filter = False\<rparr>" "''m1_002_raw.txt''" _
      "[(''m1_001_raw.txt'', ?good)]" "[]" "[]" ?out "[FirstTouch ''m1_001_raw.txt'' 0]"
      NoTouchesDetected "[(''m1_003_raw.txt'', ?good)]"]
  have c3: "batch \<lparr>threshold_arg = None, no_filter = False\<rparr>
       ([(''m1_001_raw.txt'', ?good)] @ (''m1_002_raw.txt'', ?one)
         # [(''m1_003_raw.txt'', ?good)]) [] []
       = Inl (''m1_002_raw.txt'', NoTouchesDetected, ?out, [FirstTouch ''m1_001_raw.txt'' 0])"
    by blast
  from h1 h2 h3 c1 c2 c3 show ?thesis by blast
qed

text \<open>
  Claim C10 (the lookup of an open touch succeeds). For every raw table that reaches the scan
  (more than one row, at least one sensor, decoded, first row untouched) the scan ends without \<open>KeyError\<close>:
  at every release the channel is in \<open>temp\<close>, and the file is processed to a normal result.
  For every raw table whatever, processing the file never ends in \<open>KeyError\<close>.
\<close>

theorem open_touch_lookup_succeeds:
  "(1 < length data \<and> snd (hd data) \<noteq> []
      \<and> decode (length (snd (hd data))) data = Inr newdata
      \<and> sum_list (snd (hd newdata)) = 0 \<longrightarrow>
      (\<exists>st. row_loop a filename (fst (hd newdata)) (12 * length (snd (hd data))) 1
               (hd newdata) (tl newdata)
               \<lparr>st_touches = [], st_temp = Map.empty, st_log = []\<rparr> = Inr st)
      \<and> (\<exists>out. process_file a filename data = Inr out))
   \<and> process_file a filename data \<noteq> Inl KeyError"
proof -
  have 1: "(\<exists>st. row_loop a filename (fst (hd newdata)) (12 * length (snd (hd data))) 1
               (hd newdata) (tl newdata)
               \<lparr>st_touches = [], st_temp = Map.empty, st_log = []\<rparr> = Inr st)
      \<and> (\<exists>out. process_file a filename data = Inr out)"
    if "1 < length data" "decode (length (snd (hd data))) data = Inr newdata"
      "sum_list (snd (hd newdata)) = 0" "snd (hd data) \<noteq> []" for newdata
    using process_file_scan [OF that, of a filename] finish_returns [of a filename]
    by metis
  have 2: "process_file a filename data \<noteq> Inl KeyError"
  proof (cases "length data \<le> 1 \<or> snd (hd data) = []")
    case True
    then show ?thesis by (simp add: process_file_def)
  next
    case False
    then have len: "1 < length data" and ne: "snd (hd data) \<noteq> []" by simp_all
    show ?thesis
    proof (cases "decode (length (snd (hd data))) data")
      case (Inl e)
      with decode_error [OF Inl] False show ?thesis by (simp add: process_file_def)
    next
      case (Inr nd)
      show ?thesis
      proof (cases "sum_list (snd (hd nd)) = 0")
        case True
        from 1 [OF len Inr True ne] show ?thesis by auto
      next
        case False
        with len ne Inr show ?thesis by (simp add: process_file_def Let_def)
      qed
    qed
  qed
  from 1 2 show ?thesis by blast
qed

theorem open_touch_lookup_succeeds_witness:
  "1 < length [(0::rat, [0::int]), (1, [1]), (2, [0])]
   \<and> snd (hd [(0::rat, [0::int]), (1, [1]), (2, [0])]) \<noteq> []
   \<and> decode (length (snd (hd [(0::rat, [0::int]), (1, [1]), (2, [0])])))
         [(0, [0]), (1, [1]), (2, [0])]
       = Inr [(0, [0::nat, 0, 0, 0, 0, 0, 0, 0, 0, 0, 0, 0]), (1, [1::nat, 0, 0, 0, 0, 0, 0, 0, 0, 0, 0, 0]), (2, [0::nat, 0, 0, 0, 0, 0, 0, 0, 0, 0, 0, 0])]
   \<and> sum_list (snd (hd [(0::rat, [0::nat, 0, 0, 0, 0, 0, 0, 0, 0, 0, 0, 0]), (1, [1::nat, 0, 0, 0, 0, 0, 0, 0, 0, 0, 0, 0]), (2, [0::nat, 0, 0, 0, 0, 0, 0, 0, 0, 0, 0, 0])])) = 0
   \<and> (\<exists>out. process_file \<lparr>threshold_arg = None, no_filter = False\<rparr> ''m1_001_raw.txt'' [(0, [0]), (1, [1]), (2, [0])] = Inr out)"
proof -
  let ?data = "[(0::rat, [0::int]), (1, [1]), (2, [0])]"
  let ?newdata = "[(0::rat, [0::nat, 0, 0, 0, 0, 0, 0, 0, 0, 0, 0, 0]), (1, [1::nat, 0, 0, 0, 0, 0, 0, 0, 0, 0, 0, 0]), (2, [0::nat, 0, 0, 0, 0, 0, 0, 0, 0, 0, 0, 0])]"
  have h: "1 < length ?data \<and> snd (hd ?data) \<noteq> []
      \<and> decode (length (snd (hd ?data))) ?data = Inr ?newdata
      \<and> sum_list (snd (hd ?newdata)) = 0" by code_simp
  from h open_touch_lookup_succeeds [of ?data ?newdata "\<lparr>threshold_arg = None, no_filter = False\<rparr>" "''m1_001_raw.txt''"]
  have "\<exists>out. process_file \<lparr>threshold_arg = None, no_filter = False\<rparr> ''m1_001_raw.txt'' ?data = Inr out" by blast
  with h show ?thesis by blast
qed

end
